theory Spec2Isabelle
  imports Complex_Main "HOL-Library.Multiset"
begin

section \<open>Numbers\<close>

text \<open>
  The module \<open>miff.py\<close> computes with Python floats and NumPy \<open>float64\<close> scalars and
  arrays. The development has two layers of arithmetic. In the definitions of this
  section a finite number is the real it denotes and arithmetic on finite numbers is
  exact; what IEEE arithmetic adds to the reals is kept: NumPy returns \<open>nan\<close> or \<open>\<plusminus>inf\<close>
  (with a warning, no exception) where Python's own float division raises
  \<open>ZeroDivisionError\<close> (a zero divisor is the positive zero that the sums of this module
  produce). This layer carries the statements about exceptions, dictionaries and list
  objects. Section \<open>Floating-point arithmetic\<close> adds rounding to the nearest \<open>float64\<close>
  number and overflow; every statement about the numbers that \<open>Difference\<close>, the
  remapping functions and \<open>HellingerDistance\<close> return is made there. The sign of zero
  is not modelled.
\<close>

datatype error = KeyError string | IndexError | TypeError | ValueError | ZeroDivisionError

datatype npfloat = Fin real | PInf | NInf | NaN

fun np_neg :: "npfloat \<Rightarrow> npfloat" where
  "np_neg (Fin x) = Fin (- x)"
| "np_neg PInf = NInf"
| "np_neg NInf = PInf"
| "np_neg NaN = NaN"

fun np_add :: "npfloat \<Rightarrow> npfloat \<Rightarrow> npfloat" where
  "np_add (Fin x) (Fin y) = Fin (x + y)"
| "np_add NaN y = NaN"
| "np_add x NaN = NaN"
| "np_add PInf NInf = NaN"
| "np_add NInf PInf = NaN"
| "np_add PInf y = PInf"
| "np_add x PInf = PInf"
| "np_add NInf y = NInf"
| "np_add x NInf = NInf"

fun np_sgn :: "npfloat \<Rightarrow> real" where
  "np_sgn (Fin x) = sgn x"
| "np_sgn PInf = 1"
| "np_sgn NInf = - 1"
| "np_sgn NaN = 0"

definition inf_of_sign :: "real \<Rightarrow> npfloat" where
  "inf_of_sign s = (if s = 0 then NaN else if 0 < s then PInf else NInf)"

fun np_mul :: "npfloat \<Rightarrow> npfloat \<Rightarrow> npfloat" where
  "np_mul (Fin x) (Fin y) = Fin (x * y)"
| "np_mul NaN y = NaN"
| "np_mul x NaN = NaN"
| "np_mul x y = inf_of_sign (np_sgn x * np_sgn y)"

text \<open>
  NumPy's true division: \<open>x / 0\<close> is \<open>nan\<close> for \<open>x = 0\<close> and an infinity of the sign
  of \<open>x\<close> otherwise; a finite number over an infinity is \<open>0\<close>.
\<close>

fun np_div :: "npfloat \<Rightarrow> npfloat \<Rightarrow> npfloat" where
  "np_div (Fin x) (Fin y) = (if y = 0 then inf_of_sign x else Fin (x / y))"
| "np_div NaN y = NaN"
| "np_div x NaN = NaN"
| "np_div (Fin x) y = Fin 0"
| "np_div PInf (Fin y) = (if 0 \<le> y then PInf else NInf)"
| "np_div NInf (Fin y) = (if 0 \<le> y then NInf else PInf)"
| "np_div x y = NaN"

fun np_sqrt :: "npfloat \<Rightarrow> npfloat" where
  "np_sqrt (Fin x) = (if x < 0 then NaN else Fin (sqrt x))"
| "np_sqrt PInf = PInf"
| "np_sqrt NInf = NaN"
| "np_sqrt NaN = NaN"

fun np_exp :: "npfloat \<Rightarrow> npfloat" where
  "np_exp (Fin x) = Fin (exp x)"
| "np_exp PInf = PInf"
| "np_exp NInf = Fin 0"
| "np_exp NaN = NaN"

text \<open>\<open>np.minimum(x, y)\<close> on scalars: a \<open>nan\<close> operand is returned.\<close>

fun np_minimum :: "npfloat \<Rightarrow> npfloat \<Rightarrow> npfloat" where
  "np_minimum (Fin x) (Fin y) = Fin (min x y)"
| "np_minimum NaN y = NaN"
| "np_minimum x NaN = NaN"
| "np_minimum NInf y = NInf"
| "np_minimum x NInf = NInf"
| "np_minimum PInf y = y"
| "np_minimum x PInf = x"

text \<open>
  A scalar that a metric or a remap returns is a Python float (\<open>DiscreteDistance\<close>
  returns the literals \<open>1.0\<close> and \<open>0.0\<close>) or a NumPy scalar (whatever \<open>np.sum\<close>,
  \<open>np.sqrt\<close>, \<open>np.minimum\<close> return). The two differ in what division by zero does.
\<close>

datatype pynum = PyFloat real | NpFloat npfloat

fun to_np :: "pynum \<Rightarrow> npfloat" where
  "to_np (PyFloat x) = Fin x"
| "to_np (NpFloat x) = x"

text \<open>\<open>d / r\<close> for a scalar \<open>d\<close> and a Python number \<open>r\<close>.\<close>

fun truediv :: "pynum \<Rightarrow> real \<Rightarrow> error + pynum" where
  "truediv (PyFloat x) r = (if r = 0 then Inl ZeroDivisionError else Inr (PyFloat (x / r)))"
| "truediv (NpFloat x) r = Inr (NpFloat (np_div x (Fin r)))"

fun neg :: "pynum \<Rightarrow> pynum" where
  "neg (PyFloat x) = PyFloat (- x)"
| "neg (NpFloat x) = NpFloat (np_neg x)"

text \<open>
  The built-in \<open>sum\<close> over a NumPy array: a left fold that starts from the integer \<open>0\<close>.
\<close>

definition py_sum :: "npfloat list \<Rightarrow> npfloat" where
  "py_sum xs = foldl np_add (Fin 0) xs"

section \<open>Feature values and the metrics\<close>

text \<open>A numeric feature value: a scalar or a one-dimensional NumPy array.\<close>

datatype ndarray = Scalar real | Vector "real list"

text \<open>
  \<open>a - b\<close> with NumPy's broadcasting: shapes \<open>(n,)\<close> and \<open>(m,)\<close> are compatible when
  \<open>n = m\<close> or one of them is \<open>1\<close>; otherwise the subtraction raises \<open>ValueError\<close>.
\<close>

fun np_subtract :: "ndarray \<Rightarrow> ndarray \<Rightarrow> error + ndarray" where
  "np_subtract (Scalar x) (Scalar y) = Inr (Scalar (x - y))"
| "np_subtract (Scalar x) (Vector ys) = Inr (Vector (map (\<lambda>y. x - y) ys))"
| "np_subtract (Vector xs) (Scalar y) = Inr (Vector (map (\<lambda>x. x - y) xs))"
| "np_subtract (Vector xs) (Vector ys) =
     (if length xs = length ys then Inr (Vector (map2 (\<lambda>x y. x - y) xs ys))
      else case xs of
        [x] \<Rightarrow> Inr (Vector (map (\<lambda>y. x - y) ys))
      | _ \<Rightarrow> (case ys of
          [y] \<Rightarrow> Inr (Vector (map (\<lambda>x. x - y) xs))
        | _ \<Rightarrow> Inl ValueError))"

fun np_abs :: "ndarray \<Rightarrow> ndarray" where
  "np_abs (Scalar x) = Scalar \<bar>x\<bar>"
| "np_abs (Vector xs) = Vector (map abs xs)"

fun np_sum :: "ndarray \<Rightarrow> real" where
  "np_sum (Scalar x) = x"
| "np_sum (Vector xs) = sum_list xs"

text \<open>
  \<open>np.maximum\<close> is the binary element-wise maximum; the model takes the list of its
  positional arguments. Called with one argument it raises \<open>TypeError\<close> (it takes two
  input arrays); the optional third positional argument, an output array, is not
  modelled.
\<close>

fun np_maximum :: "ndarray list \<Rightarrow> error + ndarray" where
  "np_maximum [Scalar x, Scalar y] = Inr (Scalar (max x y))"
| "np_maximum [Scalar x, Vector ys] = Inr (Vector (map (\<lambda>y. max x y) ys))"
| "np_maximum [Vector xs, Scalar y] = Inr (Vector (map (\<lambda>x. max x y) xs))"
| "np_maximum [Vector xs, Vector ys] =
     (if length xs = length ys then Inr (Vector (map2 max xs ys))
      else case xs of
        [x] \<Rightarrow> Inr (Vector (map (\<lambda>y. max x y) ys))
      | _ \<Rightarrow> (case ys of
          [y] \<Rightarrow> Inr (Vector (map (\<lambda>x. max x y) xs))
        | _ \<Rightarrow> Inl ValueError))"
| "np_maximum args = Inl TypeError"

text \<open>
  The elements of an array are floating-point numbers; arrays of an integer type, whose
  sums wrap around, are outside the model. \<open>ManhattanDistance\<close> and \<open>MaxAbsDistance\<close>
  subtract and add without rounding: the statements below use them for the exceptions
  they raise and on small integers, whose differences and sums the format holds.
\<close>

definition ManhattanDistance :: "ndarray \<Rightarrow> ndarray \<Rightarrow> error + pynum" where
  "ManhattanDistance a b =
     (case np_subtract a b of
        Inl e \<Rightarrow> Inl e
      | Inr d \<Rightarrow> Inr (NpFloat (Fin (np_sum (np_abs d)))))"

definition MaxAbsDistance :: "ndarray \<Rightarrow> ndarray \<Rightarrow> error + ndarray" where
  "MaxAbsDistance a b =
     (case np_subtract a b of
        Inl e \<Rightarrow> Inl e
      | Inr d \<Rightarrow> np_maximum [np_abs d])"

text \<open>
  \<open>DiscreteDistance\<close> compares with \<open>==\<close>; the values are those for which \<open>==\<close> is a
  truth value and holds of a value and itself (categorical tokens, booleans, numbers
  other than \<open>nan\<close>), not arrays.
\<close>

definition DiscreteDistance :: "'a \<Rightarrow> 'a \<Rightarrow> error + pynum" where
  "DiscreteDistance a b = Inr (PyFloat (if a = b then 0 else 1))"

section \<open>The remapping functions\<close>

text \<open>
  \<open>LinearRemap\<close> over exact numbers; section \<open>The module in floating-point
  arithmetic\<close> has both remapping functions with the arithmetic of the source.
\<close>

definition LinearRemap :: "pynum \<Rightarrow> real \<Rightarrow> error + pynum" where
  "LinearRemap d r =
     (case truediv d r of
        Inl e \<Rightarrow> Inl e
      | Inr q \<Rightarrow> Inr (NpFloat (np_minimum (to_np q) (Fin 1))))"

section \<open>The feature space\<close>

text \<open>
  An entry of \<open>self.features\<close>: the dictionary that \<open>AddFeature\<close> builds. The field
  \<open>range\<close> is written \<open>range'\<close>. A metric or a remap is any callable and may raise.
\<close>

record 'v feature =
  name :: string
  proto :: 'v
  metric :: "'v \<Rightarrow> 'v \<Rightarrow> error + pynum"
  remap :: "(pynum \<Rightarrow> real \<Rightarrow> error + pynum) option"
  range' :: real
  weight :: real

text \<open>\<open>AddFeature\<close> appends the entry to the list \<open>self.features\<close>.\<close>

definition AddFeature ::
  "'v feature list \<Rightarrow> string \<Rightarrow> 'v \<Rightarrow> ('v \<Rightarrow> 'v \<Rightarrow> error + pynum) \<Rightarrow>
   (pynum \<Rightarrow> real \<Rightarrow> error + pynum) option \<Rightarrow> real \<Rightarrow> real \<Rightarrow> 'v feature list" where
  "AddFeature features nm pr me rm rg wt =
     features @ [\<lparr>name = nm, proto = pr, metric = me, remap = rm, range' = rg, weight = wt\<rparr>]"

text \<open>
  The loop of \<open>Difference\<close>, with the two lists it appends to. A missing key, a metric or
  a remap that raises ends it at once.
\<close>

definition apply_remap :: "'v feature \<Rightarrow> pynum \<Rightarrow> error + pynum" where
  "apply_remap ff mm = (case remap ff of None \<Rightarrow> Inr mm | Some rm \<Rightarrow> rm mm (range' ff))"

fun Difference_loop ::
  "'v feature list \<Rightarrow> (string \<rightharpoonup> 'v) \<Rightarrow> (string \<rightharpoonup> 'v) \<Rightarrow> pynum list \<Rightarrow> real list \<Rightarrow>
   error + (pynum list \<times> real list)" where
  "Difference_loop [] aa bb metrics weights = Inr (metrics, weights)"
| "Difference_loop (ff # rest) aa bb metrics weights =
     (case aa (name ff) of
        None \<Rightarrow> Inl (KeyError (name ff))
      | Some aaVal \<Rightarrow>
         (case bb (name ff) of
            None \<Rightarrow> Inl (KeyError (name ff))
          | Some bbVal \<Rightarrow>
             (case metric ff aaVal bbVal of
                Inl e \<Rightarrow> Inl e
              | Inr mm \<Rightarrow>
                 (case apply_remap ff mm of
                    Inl e \<Rightarrow> Inl e
                  | Inr mm' \<Rightarrow>
                     Difference_loop rest aa bb (metrics @ [mm']) (weights @ [weight ff])))))"

text \<open>
  \<open>dd = sum(mm * ww) / sum(ww)\<close>. Over empty arrays both built-in sums are the integer
  \<open>0\<close> and \<open>0 / 0\<close> raises \<open>ZeroDivisionError\<close>; otherwise both are NumPy scalars and
  the division is NumPy's.
\<close>

definition weighted_sum :: "pynum list \<Rightarrow> real list \<Rightarrow> npfloat" where
  "weighted_sum metrics weights =
     py_sum (map2 (\<lambda>m w. np_mul (to_np m) (Fin w)) metrics weights)"

definition weight_total :: "real list \<Rightarrow> npfloat" where
  "weight_total weights = py_sum (map Fin weights)"

datatype diff_result = Only npfloat | WithMetrics npfloat "pynum list"

definition Difference ::
  "'v feature list \<Rightarrow> (string \<rightharpoonup> 'v) \<Rightarrow> (string \<rightharpoonup> 'v) \<Rightarrow> bool \<Rightarrow> error + diff_result" where
  "Difference features aa bb get_metrics =
     (case Difference_loop features aa bb [] [] of
        Inl e \<Rightarrow> Inl e
      | Inr (metrics, weights) \<Rightarrow>
         (if metrics = [] then Inl ZeroDivisionError
          else let dd = np_div (weighted_sum metrics weights) (weight_total weights)
               in if get_metrics then Inr (WithMetrics dd metrics) else Inr (Only dd)))"

text \<open>\<open>Element\<close>: the dictionary filled by the loop, a later assignment to a key
  replacing an earlier one.\<close>

definition Element :: "'v feature list \<Rightarrow> (string \<rightharpoonup> 'v)" where
  "Element features = fold (\<lambda>ff e. e(name ff \<mapsto> proto ff)) features Map.empty"

section \<open>The formulas of the specification\<close>

text \<open>
  The definitions of this section follow the words of the specification; the theorems
  below compare them with the functions of the source.
\<close>

text \<open>The maximum of the element-wise absolute differences, as the specification
  words it (the L-infinity distance of two vectors of equal length).\<close>

definition MaxAbs_spec :: "real list \<Rightarrow> real list \<Rightarrow> real" where
  "MaxAbs_spec a b = fold max (map2 (\<lambda>x y. \<bar>x - y\<bar>) a b) 0"

text \<open>
  The normalized distance of one feature: its metric applied to the two values, passed
  through its remap with its scale when a remap is configured, unmodified otherwise.
\<close>

definition normalized_metric :: "'v feature \<Rightarrow> 'v \<Rightarrow> 'v \<Rightarrow> error + pynum" where
  "normalized_metric ff x y =
     (case remap ff of
        None \<Rightarrow> metric ff x y
      | Some rm \<Rightarrow> (case metric ff x y of Inl e \<Rightarrow> Inl e | Inr m \<Rightarrow> rm m (range' ff)))"

text \<open>The list \<open>[m\<^sub>1, \<dots>, m\<^sub>n]\<close>, in registration order.\<close>

definition per_feature :: "'v feature list \<Rightarrow> (string \<rightharpoonup> 'v) \<Rightarrow> (string \<rightharpoonup> 'v) \<Rightarrow> pynum list" where
  "per_feature features aa bb =
     map (\<lambda>ff. projr (normalized_metric ff (the (aa (name ff))) (the (bb (name ff))))) features"

text \<open>The weighted mean \<open>(\<Sum> w\<^sub>i \<sqdot> m\<^sub>i) / (\<Sum> w\<^sub>i)\<close>, and the same over finite numbers.\<close>

definition np_sum_list :: "npfloat list \<Rightarrow> npfloat" where
  "np_sum_list xs = foldr np_add xs (Fin 0)"

definition weighted_mean_spec :: "real list \<Rightarrow> pynum list \<Rightarrow> npfloat" where
  "weighted_mean_spec ws ms =
     np_div (np_sum_list (map2 (\<lambda>w m. np_mul (Fin w) (to_np m)) ws ms)) (Fin (sum_list ws))"

definition weighted_average :: "real list \<Rightarrow> real list \<Rightarrow> real" where
  "weighted_average ws ms = (\<Sum>(w, m) \<leftarrow> zip ws ms. w * m) / sum_list ws"

fun succeeds :: "error + 'a \<Rightarrow> bool" where
  "succeeds (Inr v) = True"
| "succeeds (Inl e) = False"

text \<open>
  Both elements contain every registered name, and every metric and remap returns a
  number on the values it is given.
\<close>

definition computable :: "'v feature list \<Rightarrow> (string \<rightharpoonup> 'v) \<Rightarrow> (string \<rightharpoonup> 'v) \<Rightarrow> bool" where
  "computable features aa bb =
     list_all (\<lambda>ff. case (aa (name ff), bb (name ff)) of
                      (Some x, Some y) \<Rightarrow> succeeds (normalized_metric ff x y)
                    | _ \<Rightarrow> False) features"

text \<open>A registered name is absent from one of the two elements.\<close>

definition missing :: "(string \<rightharpoonup> 'v) \<Rightarrow> (string \<rightharpoonup> 'v) \<Rightarrow> 'v feature \<Rightarrow> bool" where
  "missing aa bb ff = (aa (name ff) = None \<or> bb (name ff) = None)"

fun is_finite :: "npfloat \<Rightarrow> bool" where
  "is_finite (Fin x) = True"
| "is_finite y = False"

fun scalar_of :: "diff_result \<Rightarrow> npfloat" where
  "scalar_of (Only dd) = dd"
| "scalar_of (WithMetrics dd ms) = dd"

fun metrics_of :: "diff_result \<Rightarrow> pynum list" where
  "metrics_of (Only dd) = []"
| "metrics_of (WithMetrics dd ms) = ms"

text \<open>
  The Bhattacharyya coefficient of the two normalized vectors, and the Hellinger distance
  with the clamp that the specification asks for.
\<close>

definition Bhattacharyya :: "real list \<Rightarrow> real list \<Rightarrow> real" where
  "Bhattacharyya a b = (\<Sum>(x, y) \<leftarrow> zip a b. sqrt ((x / sum_list a) * (y / sum_list b)))"

definition Hellinger_spec :: "real list \<Rightarrow> real list \<Rightarrow> real" where
  "Hellinger_spec a b = sqrt (max 0 (1 - Bhattacharyya a b))"

section \<open>Elements on the heap\<close>

text \<open>
  Python values are references to objects. Where a prototype is a mutable vector, what
  \<open>Element\<close> stores under a name is the reference held by the registry. The heap is
  the list of the objects allocated so far, an address being an index of it.
\<close>

type_synonym addr = nat

datatype pyobj = VecObj "real list" | DictObj "string \<rightharpoonup> addr"

type_synonym heap = "pyobj list"

definition lookup :: "heap \<Rightarrow> addr \<Rightarrow> pyobj option" where
  "lookup h p = (if p < length h then Some (h ! p) else None)"

definition alloc :: "heap \<Rightarrow> pyobj \<Rightarrow> heap \<times> addr" where
  "alloc h obj = (h @ [obj], length h)"

text \<open>
  A call of \<open>Element\<close> on a space whose prototypes are references: \<open>e = {}\<close> allocates a
  new dictionary, the loop stores the prototypes' references in it, and the reference of
  the dictionary is returned.
\<close>

definition Element_call :: "heap \<Rightarrow> addr feature list \<Rightarrow> heap \<times> addr" where
  "Element_call h features = alloc h (DictObj (Element features))"

text \<open>
  What a caller does with a returned element: \<open>e[k]\<close>, \<open>e[k] = p\<close> (rebinding a key),
  \<open>v[i] = x\<close> on a vector (in place) and \<open>e[k][i] = x\<close>.
\<close>

definition getitem :: "heap \<Rightarrow> addr \<Rightarrow> string \<Rightarrow> error + addr" where
  "getitem h e k =
     (case lookup h e of
        Some (DictObj d) \<Rightarrow> (case d k of None \<Rightarrow> Inl (KeyError k) | Some p \<Rightarrow> Inr p)
      | _ \<Rightarrow> Inl TypeError)"

definition dict_setitem :: "heap \<Rightarrow> addr \<Rightarrow> string \<Rightarrow> addr \<Rightarrow> error + heap" where
  "dict_setitem h e k p =
     (case lookup h e of
        Some (DictObj d) \<Rightarrow> Inr (h[e := DictObj (d(k \<mapsto> p))])
      | _ \<Rightarrow> Inl TypeError)"

definition vec_setitem :: "heap \<Rightarrow> addr \<Rightarrow> nat \<Rightarrow> real \<Rightarrow> error + heap" where
  "vec_setitem h p i x =
     (case lookup h p of
        Some (VecObj v) \<Rightarrow> (if i < length v then Inr (h[p := VecObj (v[i := x])]) else Inl IndexError)
      | _ \<Rightarrow> Inl TypeError)"

definition item_setitem :: "heap \<Rightarrow> addr \<Rightarrow> string \<Rightarrow> nat \<Rightarrow> real \<Rightarrow> error + heap" where
  "item_setitem h e k i x =
     (case getitem h e k of Inl err \<Rightarrow> Inl err | Inr p \<Rightarrow> vec_setitem h p i x)"

definition deref :: "heap \<Rightarrow> addr \<Rightarrow> string \<Rightarrow> pyobj option" where
  "deref h e k = (case getitem h e k of Inl err \<Rightarrow> None | Inr p \<Rightarrow> lookup h p)"

text \<open>A space with one feature, whose prototype is the vector at address \<open>0\<close>.\<close>

definition vec_space :: "addr feature list" where
  "vec_space = AddFeature [] ''v'' 0 DiscreteDistance None 1 1"

section \<open>Instances of the class\<close>

text \<open>
  The class body binds the class attribute \<open>features\<close> to one list object;
  \<open>__init__\<close> binds the instance attribute \<open>self.features\<close> to a new list. The
  expression \<open>self.features\<close> finds the instance attribute first and the class attribute
  otherwise. A world holds the list objects (an address is an index), the class attribute
  and, for every instance, its attribute if it has one.
\<close>

record 'v world =
  lists :: "'v feature list list"
  class_features :: addr
  instances :: "addr option list"

definition class_defined :: "'v world" where
  "class_defined = \<lparr>lists = [[]], class_features = 0, instances = []\<rparr>"

definition new_object :: "'v world \<Rightarrow> 'v world \<times> addr" where
  "new_object w = (w\<lparr>instances := instances w @ [None]\<rparr>, length (instances w))"

definition init :: "'v world \<Rightarrow> addr \<Rightarrow> 'v world" where
  "init w self =
     w\<lparr>lists := lists w @ [[]], instances := (instances w)[self := Some (length (lists w))]\<rparr>"

definition FeatureSpace_new :: "'v world \<Rightarrow> 'v world \<times> addr" where
  "FeatureSpace_new w = (case new_object w of (w1, self) \<Rightarrow> (init w1 self, self))"

definition self_features :: "'v world \<Rightarrow> addr \<Rightarrow> addr" where
  "self_features w self =
     (case instances w ! self of Some l \<Rightarrow> l | None \<Rightarrow> class_features w)"

definition AddFeature_method ::
  "'v world \<Rightarrow> addr \<Rightarrow> string \<Rightarrow> 'v \<Rightarrow> ('v \<Rightarrow> 'v \<Rightarrow> error + pynum) \<Rightarrow>
   (pynum \<Rightarrow> real \<Rightarrow> error + pynum) option \<Rightarrow> real \<Rightarrow> real \<Rightarrow> 'v world" where
  "AddFeature_method w self nm pr me rm rg wt =
     (let l = self_features w self
      in w\<lparr>lists := (lists w)[l := AddFeature (lists w ! l) nm pr me rm rg wt]\<rparr>)"

definition features_of :: "'v world \<Rightarrow> addr \<Rightarrow> 'v feature list" where
  "features_of w self = lists w ! self_features w self"

text \<open>
  The worlds that calls of the constructor and of \<open>AddFeature\<close> reach from the
  class definition.
\<close>

datatype 'v call = Construct | Register addr "'v feature"

fun step :: "'v world \<Rightarrow> 'v call \<Rightarrow> 'v world" where
  "step w Construct = fst (FeatureSpace_new w)"
| "step w (Register self f) =
     (if self < length (instances w)
      then AddFeature_method w self (name f) (proto f) (metric f) (remap f) (range' f) (weight f)
      else w)"

definition run :: "'v call list \<Rightarrow> 'v world" where
  "run calls = foldl step class_defined calls"

text \<open>
  Every instance has a list of its own: never the class's, never another instance's.
\<close>

definition own_lists :: "'v world \<Rightarrow> bool" where
  "own_lists w =
     (class_features w = 0 \<and> 0 < length (lists w) \<and> lists w ! 0 = []
      \<and> (\<forall>i < length (instances w). \<exists>l. instances w ! i = Some l \<and> 0 < l \<and> l < length (lists w))
      \<and> (\<forall>i < length (instances w). \<forall>j < length (instances w).
            instances w ! i = instances w ! j \<longrightarrow> i = j))"

section \<open>Floating-point arithmetic\<close>

text \<open>
  A \<open>float64\<close> number is \<open>k \<sqdot> 2\<^sup>j\<close> with \<open>\<bar>k\<bar> < 2\<^sup>5\<^sup>3\<close> and \<open>-1074 \<le> j \<le> 971\<close>. An operation
  of IEEE 754 arithmetic returns the exact result rounded to the nearest number of the
  format, a tie going to the even significand; a result that rounds beyond the largest
  finite number is an infinity.

  \<open>round_even\<close> is rounding to the nearest integer, ties to even. \<open>exponent64 x\<close> is the
  binary exponent of \<open>x\<close>, not below \<open>-1022\<close> (below \<open>2\<^sup>-\<^sup>1\<^sup>0\<^sup>2\<^sup>2\<close> the numbers of the format are
  equally spaced), \<open>ulp64 x\<close> the spacing of the format at \<open>x\<close>, \<open>nearest64 x\<close> the nearest
  multiple of that spacing and \<open>round64 x\<close> the number that the operation returns.
\<close>

definition round_even :: "real \<Rightarrow> int" where
  "round_even z =
     (let f = \<lfloor>z\<rfloor>
      in if z - of_int f < 1 / 2 then f
         else if 1 / 2 < z - of_int f then f + 1
         else if even f then f else f + 1)"

definition pow2 :: "int \<Rightarrow> real" where
  "pow2 i = 2 powr of_int i"

definition exponent64 :: "real \<Rightarrow> int" where
  "exponent64 x = max \<lfloor>log 2 \<bar>x\<bar>\<rfloor> (- 1022)"

definition ulp64 :: "real \<Rightarrow> real" where
  "ulp64 x = pow2 (exponent64 x - 52)"

definition nearest64 :: "real \<Rightarrow> real" where
  "nearest64 x = of_int (round_even (x / ulp64 x)) * ulp64 x"

definition round64 :: "real \<Rightarrow> npfloat" where
  "round64 x =
     (let y = nearest64 x
      in if 2 ^ 1024 \<le> \<bar>y\<bar> then (if 0 < x then PInf else NInf) else Fin y)"

definition is_double :: "real \<Rightarrow> bool" where
  "is_double x = (\<exists>k j. \<bar>k\<bar> < 2 ^ 53 \<and> - 1074 \<le> j \<and> j \<le> 971 \<and> x = of_int k * pow2 j)"

text \<open>
  The operations of the module on \<open>float64\<close> scalars. On finite operands the exact
  result is rounded; \<open>nan\<close> and the infinities behave as in section \<open>Numbers\<close>. IEEE 754
  requires \<open>+\<close>, \<open>-\<close>, \<open>*\<close>, \<open>/\<close> and the square root to be correctly rounded. It does not
  require it of \<open>exp\<close>: \<open>exp64\<close> takes \<open>np.exp\<close> to return the nearest number too, and the
  statements below say where they depend on it.
\<close>

fun add64 :: "npfloat \<Rightarrow> npfloat \<Rightarrow> npfloat" where
  "add64 (Fin x) (Fin y) = round64 (x + y)"
| "add64 x y = np_add x y"

definition sub64 :: "npfloat \<Rightarrow> npfloat \<Rightarrow> npfloat" where
  "sub64 x y = add64 x (np_neg y)"

fun mul64 :: "npfloat \<Rightarrow> npfloat \<Rightarrow> npfloat" where
  "mul64 (Fin x) (Fin y) = round64 (x * y)"
| "mul64 x y = np_mul x y"

fun div64 :: "npfloat \<Rightarrow> npfloat \<Rightarrow> npfloat" where
  "div64 (Fin x) (Fin y) = (if y = 0 then inf_of_sign x else round64 (x / y))"
| "div64 x y = np_div x y"

fun sqrt64 :: "npfloat \<Rightarrow> npfloat" where
  "sqrt64 (Fin x) = (if x < 0 then NaN else round64 (sqrt x))"
| "sqrt64 x = np_sqrt x"

fun exp64 :: "npfloat \<Rightarrow> npfloat" where
  "exp64 (Fin x) = round64 (exp x)"
| "exp64 x = np_exp x"

section \<open>The module in floating-point arithmetic\<close>

text \<open>
  \<open>Difference\<close> with the arithmetic of the source: \<open>mm * ww\<close> rounds every product, the
  built-in \<open>sum\<close> adds the elements of an array from left to right, starting from the
  integer \<open>0\<close> and rounding every partial sum, and the quotient is rounded. The loop is
  the one of section \<open>The feature space\<close>; the weights and the values that the metrics
  return are \<open>float64\<close> numbers.
\<close>

definition py_sum64 :: "npfloat list \<Rightarrow> npfloat" where
  "py_sum64 xs = foldl add64 (Fin 0) xs"

definition weighted_sum64 :: "pynum list \<Rightarrow> real list \<Rightarrow> npfloat" where
  "weighted_sum64 metrics weights =
     py_sum64 (map2 (\<lambda>m w. mul64 (to_np m) (Fin w)) metrics weights)"

definition weight_total64 :: "real list \<Rightarrow> npfloat" where
  "weight_total64 weights = py_sum64 (map Fin weights)"

definition Difference64 ::
  "'v feature list \<Rightarrow> (string \<rightharpoonup> 'v) \<Rightarrow> (string \<rightharpoonup> 'v) \<Rightarrow> bool \<Rightarrow> error + diff_result" where
  "Difference64 features aa bb get_metrics =
     (case Difference_loop features aa bb [] [] of
        Inl e \<Rightarrow> Inl e
      | Inr (metrics, weights) \<Rightarrow>
         (if metrics = [] then Inl ZeroDivisionError
          else let dd = div64 (weighted_sum64 metrics weights) (weight_total64 weights)
               in if get_metrics then Inr (WithMetrics dd metrics) else Inr (Only dd)))"

text \<open>
  \<open>HellingerDistance\<close>: \<open>aa = a / np.sum(a)\<close> and \<open>bb = b / np.sum(b)\<close> never raise; the
  loop runs over \<open>range(len(aa))\<close> and reads \<open>bb[i]\<close>, which raises \<open>IndexError\<close> when \<open>bb\<close>
  is shorter (or is a scalar); \<open>len\<close> of a scalar raises \<open>TypeError\<close>. The result is
  \<open>np.sqrt(1 - bc)\<close>, with no test of the sign of \<open>1 - bc\<close>.

  \<open>sum64\<close> is \<open>np.sum\<close> of a one-dimensional array, adding in index order. That is the
  order of NumPy for an array of fewer than eight elements; a longer array is added in
  blocks, in an order that this model does not follow.
\<close>

definition sum64 :: "real list \<Rightarrow> npfloat" where
  "sum64 xs = foldl add64 (Fin 0) (map Fin xs)"

definition normalize64 :: "real list \<Rightarrow> npfloat list" where
  "normalize64 a = map (\<lambda>x. div64 (Fin x) (sum64 a)) a"

fun Hellinger_loop64 :: "npfloat list \<Rightarrow> npfloat list \<Rightarrow> npfloat \<Rightarrow> error + npfloat" where
  "Hellinger_loop64 [] bb bc = Inr bc"
| "Hellinger_loop64 (x # aa) [] bc = Inl IndexError"
| "Hellinger_loop64 (x # aa) (y # bb) bc =
     Hellinger_loop64 aa bb (add64 bc (sqrt64 (mul64 x y)))"

fun HellingerDistance64 :: "ndarray \<Rightarrow> ndarray \<Rightarrow> error + pynum" where
  "HellingerDistance64 (Scalar a) b = Inl TypeError"
| "HellingerDistance64 (Vector a) (Scalar b) =
     (if a = [] then Inr (NpFloat (sqrt64 (sub64 (Fin 1) (Fin 0)))) else Inl IndexError)"
| "HellingerDistance64 (Vector a) (Vector b) =
     (case Hellinger_loop64 (normalize64 a) (normalize64 b) (Fin 0) of
        Inl e \<Rightarrow> Inl e
      | Inr bc \<Rightarrow> Inr (NpFloat (sqrt64 (sub64 (Fin 1) bc))))"

text \<open>
  The remapping functions. \<open>d / r\<close> is Python's division when \<open>d\<close> is a Python float (it
  raises on a zero divisor) and NumPy's when \<open>d\<close> is a NumPy scalar; \<open>np.minimum\<close>,
  \<open>np.exp\<close> and the subtraction from \<open>1.0\<close> return NumPy scalars.
\<close>

fun truediv64 :: "pynum \<Rightarrow> real \<Rightarrow> error + npfloat" where
  "truediv64 (PyFloat x) r = (if r = 0 then Inl ZeroDivisionError else Inr (round64 (x / r)))"
| "truediv64 (NpFloat x) r = Inr (div64 x (Fin r))"

definition LinearRemap64 :: "pynum \<Rightarrow> real \<Rightarrow> error + pynum" where
  "LinearRemap64 d r =
     (case truediv64 d r of
        Inl e \<Rightarrow> Inl e
      | Inr q \<Rightarrow> Inr (NpFloat (np_minimum q (Fin 1))))"

definition ExponentialRemap64 :: "pynum \<Rightarrow> real \<Rightarrow> error + pynum" where
  "ExponentialRemap64 d r =
     (case truediv64 (neg d) r of
        Inl e \<Rightarrow> Inl e
      | Inr q \<Rightarrow> Inr (NpFloat (sub64 (Fin 1) (exp64 q))))"

section \<open>Formulas and examples for floating-point arithmetic\<close>

text \<open>
  The scalar that \<open>Difference64\<close> computes from the weights and the list of per-feature
  distances.
\<close>

definition weighted_mean64 :: "real list \<Rightarrow> pynum list \<Rightarrow> npfloat" where
  "weighted_mean64 ws ms =
     div64 (foldl add64 (Fin 0) (map2 (\<lambda>w m. mul64 (Fin w) (to_np m)) ws ms))
       (foldl add64 (Fin 0) (map Fin ws))"

text \<open>
  No product \<open>w\<^sub>i \<sqdot> m\<^sub>i\<close> and no partial sum of the products or of the weights is rounded:
  each of them is a number of the format.
\<close>

fun partial_sums :: "real \<Rightarrow> real list \<Rightarrow> real list" where
  "partial_sums s [] = []"
| "partial_sums s (x # xs) = (s + x) # partial_sums (s + x) xs"

definition no_rounding :: "real list \<Rightarrow> real list \<Rightarrow> bool" where
  "no_rounding ws rs =
     (list_all is_double (map2 (\<lambda>w r. w * r) ws rs)
      \<and> list_all is_double (partial_sums 0 (map2 (\<lambda>w r. w * r) ws rs))
      \<and> list_all is_double (partial_sums 0 ws))"

fun fin_val :: "npfloat \<Rightarrow> real" where
  "fin_val (Fin x) = x"
| "fin_val y = 0"

text \<open>
  The value of \<open>np.exp\<close> at the rounded quotient \<open>z\<close>, which is \<open>-inf\<close> when the quotient
  overflows.
\<close>

definition exp64_val :: "real \<Rightarrow> real" where
  "exp64_val z = (if nearest64 z \<le> - (2 ^ 1024) then 0 else nearest64 (exp (nearest64 z)))"

text \<open>A list of finite numbers between \<open>0\<close> and \<open>1\<close>.\<close>

definition unit_list :: "npfloat list \<Rightarrow> bool" where
  "unit_list xs = (\<forall>x \<in> set xs. \<exists>u. x = Fin u \<and> 0 \<le> u \<and> u \<le> 1)"

text \<open>Two categorical features of weights \<open>1\<close> and \<open>3\<close>, registered in both orders.\<close>

definition two_features :: "string feature list" where
  "two_features =
     AddFeature (AddFeature [] ''color'' [] DiscreteDistance None 1 1)
       ''shape'' [] DiscreteDistance None 1 3"

definition two_features_swapped :: "string feature list" where
  "two_features_swapped =
     AddFeature (AddFeature [] ''shape'' [] DiscreteDistance None 1 3)
       ''color'' [] DiscreteDistance None 1 1"

text \<open>
  Four categorical features of weights \<open>2\<^sup>5\<^sup>3\<close>, \<open>1\<close>, \<open>1\<close>, \<open>2\<^sup>5\<^sup>3\<close>, registered in both
  orders, and two elements that differ in the first three of them.
\<close>

definition order_space :: "string feature list" where
  "order_space =
     AddFeature (AddFeature (AddFeature (AddFeature []
       ''f1'' [] DiscreteDistance None 1 (2 ^ 53))
       ''f2'' [] DiscreteDistance None 1 1)
       ''f3'' [] DiscreteDistance None 1 1)
       ''f4'' [] DiscreteDistance None 1 (2 ^ 53)"

definition order_space_rev :: "string feature list" where
  "order_space_rev =
     AddFeature (AddFeature (AddFeature (AddFeature []
       ''f4'' [] DiscreteDistance None 1 (2 ^ 53))
       ''f3'' [] DiscreteDistance None 1 1)
       ''f2'' [] DiscreteDistance None 1 1)
       ''f1'' [] DiscreteDistance None 1 (2 ^ 53)"

definition order_a :: "string \<rightharpoonup> string" where
  "order_a = [''f1'' \<mapsto> ''x'', ''f2'' \<mapsto> ''x'', ''f3'' \<mapsto> ''x'', ''f4'' \<mapsto> ''x'']"

definition order_b :: "string \<rightharpoonup> string" where
  "order_b = [''f1'' \<mapsto> ''y'', ''f2'' \<mapsto> ''y'', ''f3'' \<mapsto> ''y'', ''f4'' \<mapsto> ''x'']"

text \<open>
  A space whose first metric raises on vectors of different lengths, and a space with
  the Hellinger distance.
\<close>

definition value_error_space :: "ndarray feature list" where
  "value_error_space =
     AddFeature (AddFeature [] ''v'' (Vector [0, 0]) ManhattanDistance None 1 1)
       ''w'' (Scalar 0) ManhattanDistance None 1 1"

definition hellinger_space :: "ndarray feature list" where
  "hellinger_space = AddFeature [] ''h'' (Vector [1, 1]) HellingerDistance64 None 1 1"

section \<open>MaxAbsDistance\<close>

lemma MaxAbsDistance_equal_length:
  "length a = length b \<Longrightarrow> MaxAbsDistance (Vector a) (Vector b) = Inl TypeError"
  by (simp add: MaxAbsDistance_def)

text \<open>
  Claim C2. For equal-length vectors \<open>MaxAbsDistance\<close> should return the largest
  \<open>\<bar>a\<^sub>i - b\<^sub>i\<bar>\<close> without raising. The source calls \<open>np.maximum\<close> with a single
  argument: on \<open>a = [1, 2]\<close>, \<open>b = [3, 5]\<close> the call raises \<open>TypeError\<close>, where the
  largest absolute difference is \<open>3\<close>.
\<close>

theorem MaxAbsDistance_raises:
  "MaxAbsDistance (Vector [1, 2]) (Vector [3, 5]) = Inl TypeError
   \<and> MaxAbs_spec [1, 2] [3, 5] = 3"
  by (simp add: MaxAbsDistance_def MaxAbs_spec_def)

section \<open>The loop of Difference\<close>

lemma np_add_assoc: "np_add (np_add x y) z = np_add x (np_add y z)"
  by (cases x; cases y; cases z) simp_all

lemma np_add_zero [simp]: "np_add (Fin 0) x = x" "np_add x (Fin 0) = x"
  by (cases x; simp)+

lemma np_mul_commute: "np_mul x y = np_mul y x"
  by (cases x; cases y) (simp_all add: mult.commute)

lemma foldl_np_add: "foldl np_add a xs = np_add a (foldr np_add xs (Fin 0))"
  by (induction xs arbitrary: a) (simp_all add: np_add_assoc)

lemma py_sum_eq: "py_sum xs = np_sum_list xs"
  by (simp add: py_sum_def np_sum_list_def foldl_np_add)

lemma py_sum_Fin: "py_sum (map Fin ws) = Fin (sum_list ws)"
  unfolding py_sum_eq np_sum_list_def by (induction ws) simp_all

lemma apply_remap_metric:
  "(case metric ff x y of Inl e \<Rightarrow> Inl e | Inr mm \<Rightarrow> apply_remap ff mm) = normalized_metric ff x y"
  by (simp add: apply_remap_def normalized_metric_def split: option.splits sum.splits)

lemma Difference_loop_computable:
  "computable fs aa bb \<Longrightarrow>
   Difference_loop fs aa bb ms ws = Inr (ms @ per_feature fs aa bb, ws @ map weight fs)"
proof (induction fs arbitrary: ms ws)
  case Nil
  then show ?case by (simp add: per_feature_def)
next
  case (Cons ff fs)
  from Cons.prems obtain x y m where
    xy: "aa (name ff) = Some x" "bb (name ff) = Some y" "normalized_metric ff x y = Inr m"
    and rest: "computable fs aa bb"
    by (cases "normalized_metric ff (the (aa (name ff))) (the (bb (name ff)))") (auto simp: computable_def split: option.splits)
  from xy(3) have "(case metric ff x y of Inl e \<Rightarrow> Inl e | Inr mm \<Rightarrow> apply_remap ff mm) = Inr m"
    by (simp add: apply_remap_metric)
  then obtain mm where mm: "metric ff x y = Inr mm" "apply_remap ff mm = Inr m"
    by (auto split: sum.splits)
  show ?case
    using xy mm Cons.IH [OF rest, of "ms @ [m]" "ws @ [weight ff]"]
    by (simp add: per_feature_def)
qed

lemma weighted_sum_eq:
  "weighted_sum ms ws = np_sum_list (map2 (\<lambda>w m. np_mul (Fin w) (to_np m)) ws ms)"
proof -
  have "map2 (\<lambda>m w. np_mul (to_np m) (Fin w)) ms ws
        = map2 (\<lambda>w m. np_mul (Fin w) (to_np m)) ws ms"
    by (induction ms ws rule: list_induct2') (simp_all add: np_mul_commute)
  then show ?thesis by (simp add: weighted_sum_def py_sum_eq)
qed

lemma Difference_computable:
  assumes "features \<noteq> []" and "computable features aa bb"
  shows "Difference features aa bb get_metrics =
     Inr (if get_metrics
          then WithMetrics (weighted_mean_spec (map weight features) (per_feature features aa bb))
                 (per_feature features aa bb)
          else Only (weighted_mean_spec (map weight features) (per_feature features aa bb)))"
proof -
  have loop: "Difference_loop features aa bb [] [] =
      Inr (per_feature features aa bb, map weight features)"
    using Difference_loop_computable [OF assms(2), of "[]" "[]"] by simp
  have ne: "per_feature features aa bb \<noteq> []"
    using assms(1) by (simp add: per_feature_def)
  show ?thesis
    using ne by (simp add: Difference_def loop weighted_sum_eq weight_total_def py_sum_Fin
        weighted_mean_spec_def)
qed

lemma np_div_zero_not_finite: "\<not> is_finite (np_div x (Fin 0))"
  by (cases x) (simp_all add: inf_of_sign_def)

lemma Difference_nil: "Difference [] aa bb g = Inl ZeroDivisionError"
  by (simp add: Difference_def)

lemma Difference_loop_append:
  assumes "computable pre aa bb"
  shows "Difference_loop (pre @ rest) aa bb ms ws
         = Difference_loop rest aa bb (ms @ per_feature pre aa bb) (ws @ map weight pre)"
  using assms
proof (induction pre arbitrary: ms ws)
  case Nil
  then show ?case by (simp add: per_feature_def)
next
  case (Cons ff pre)
  from Cons.prems have c1: "computable [ff] aa bb" and c2: "computable pre aa bb"
    by (simp_all add: computable_def)
  from Difference_loop_computable [OF c1, of ms ws]
  have one: "Difference_loop [ff] aa bb ms ws
             = Inr (ms @ per_feature [ff] aa bb, ws @ [weight ff])" by simp
  then have step: "Difference_loop (ff # pre @ rest) aa bb ms ws
     = Difference_loop (pre @ rest) aa bb (ms @ per_feature [ff] aa bb) (ws @ [weight ff])"
    by (auto split: option.splits sum.splits)
  show ?case
    using Cons.IH [OF c2, of "ms @ per_feature [ff] aa bb" "ws @ [weight ff]"] step
    by (simp add: per_feature_def)
qed

lemma Difference_loop_missing:
  "missing aa bb ff \<Longrightarrow> Difference_loop (ff # post) aa bb ms ws = Inl (KeyError (name ff))"
  by (auto simp: missing_def split: option.splits)

lemma Difference_loop_fails:
  "\<exists>ff \<in> set fs. missing aa bb ff \<Longrightarrow> \<exists>e. Difference_loop fs aa bb ms ws = Inl e"
proof (induction fs arbitrary: ms ws)
  case Nil
  then show ?case by simp
next
  case (Cons ff fs)
  show ?case
  proof (cases "missing aa bb ff")
    case True
    then show ?thesis by (simp only: Difference_loop_missing) blast
  next
    case False
    with Cons.prems have "\<exists>g \<in> set fs. missing aa bb g" by auto
    from Cons.IH [OF this] show ?thesis
      by (auto split: option.splits sum.splits)
  qed
qed

lemma Difference_loop_callback:
  assumes "\<forall>ff \<in> set fs. \<not> missing aa bb ff" and "Difference_loop fs aa bb ms ws = Inl e"
  shows "\<exists>ff \<in> set fs. normalized_metric ff (the (aa (name ff))) (the (bb (name ff))) = Inl e"
  using assms
proof (induction fs arbitrary: ms ws)
  case Nil
  then show ?case by simp
next
  case (Cons ff fs)
  from Cons.prems(1) obtain x y where xy: "aa (name ff) = Some x" "bb (name ff) = Some y"
    by (auto simp: missing_def)
  show ?case
  proof (cases "normalized_metric ff x y")
    case (Inl e')
    then have "(case metric ff x y of Inl e \<Rightarrow> Inl e | Inr mm \<Rightarrow> apply_remap ff mm) = Inl e'"
      by (simp add: apply_remap_metric)
    with Cons.prems(2) xy have "e' = e" by (auto split: sum.splits)
    with Inl xy show ?thesis by simp
  next
    case (Inr m)
    then have "(case metric ff x y of Inl e \<Rightarrow> Inl e | Inr mm \<Rightarrow> apply_remap ff mm) = Inr m"
      by (simp add: apply_remap_metric)
    with Cons.prems(2) xy
    have "Difference_loop fs aa bb (ms @ [m]) (ws @ [weight ff]) = Inl e"
      by (auto split: sum.splits)
    with Cons.IH [of "ms @ [m]" "ws @ [weight ff]"] Cons.prems(1) show ?thesis by auto
  qed
qed

lemma Difference_loop_length:
  "Difference_loop fs aa bb ms ws = Inr (ms', ws') \<Longrightarrow> length ms' = length ms + length fs"
proof (induction fs arbitrary: ms ws)
  case Nil
  then show ?case by simp
next
  case (Cons ff fs)
  then show ?case
    by (auto split: option.splits sum.splits dest!: Cons.IH)
qed

section \<open>Rounding to the nearest number of the format\<close>

subsection \<open>Rounding to an integer\<close>

lemma round_even_int [simp]: "round_even (of_int k) = k"
  by (simp add: round_even_def)

lemma round_even_zero [simp]: "round_even 0 = 0"
  using round_even_int [of 0] by simp

lemma round_even_cases:
  "round_even z = \<lfloor>z\<rfloor> \<or> round_even z = \<lfloor>z\<rfloor> + 1"
  by (simp add: round_even_def Let_def)

lemma round_even_mono: "z \<le> z' \<Longrightarrow> round_even z \<le> round_even z'"
proof -
  assume le: "z \<le> z'"
  then have fl: "\<lfloor>z\<rfloor> \<le> \<lfloor>z'\<rfloor>" by (rule floor_mono)
  show ?thesis
  proof (cases "\<lfloor>z\<rfloor> = \<lfloor>z'\<rfloor>")
    case True
    with le show ?thesis by (auto simp: round_even_def Let_def)
  next
    case False
    with fl have "\<lfloor>z\<rfloor> + 1 \<le> \<lfloor>z'\<rfloor>" by simp
    moreover have "round_even z \<le> \<lfloor>z\<rfloor> + 1" using round_even_cases [of z] by auto
    moreover have "\<lfloor>z'\<rfloor> \<le> round_even z'" using round_even_cases [of z'] by auto
    ultimately show ?thesis by linarith
  qed
qed

lemma round_even_near: "\<bar>of_int (round_even z) - z\<bar> \<le> 1 / 2"
  unfolding round_even_def Let_def by (auto simp: abs_if) linarith+

lemma round_even_eqI:
  assumes "of_int m - 1 / 2 < z" and "z < of_int m + 1 / 2"
  shows "round_even z = m"
proof -
  have "\<bar>of_int (round_even z) - z\<bar> \<le> 1 / 2" by (rule round_even_near)
  with assms have "\<bar>(of_int (round_even z) :: real) - of_int m\<bar> < 1" by linarith
  then have "\<bar>round_even z - m\<bar> < 1"
    by (metis of_int_diff of_int_abs of_int_less_1_iff)
  then show ?thesis by linarith
qed

lemma round_even_uminus: "round_even (- z) = - round_even z"
proof (cases "z = of_int \<lfloor>z\<rfloor>")
  case True
  then obtain k where "z = of_int k" ..
  then show ?thesis by (simp flip: of_int_minus)
next
  case False
  then have fl: "\<lfloor>- z\<rfloor> = - \<lfloor>z\<rfloor> - 1"
    by (metis ceiling_altdef ceiling_def add.commute minus_add_distrib uminus_add_conv_diff neg_equal_iff_equal minus_minus)
  show ?thesis
    unfolding round_even_def Let_def fl by (auto simp: algebra_simps)
qed

lemma round_even_le: "z \<le> of_int k \<Longrightarrow> round_even z \<le> k"
  using round_even_mono [of z "of_int k"] by simp

lemma round_even_ge: "of_int k \<le> z \<Longrightarrow> k \<le> round_even z"
  using round_even_mono [of "of_int k" z] by simp

lemma round_even_abs_le:
  assumes "\<bar>z\<bar> \<le> of_int k"
  shows "\<bar>round_even z\<bar> \<le> k"
proof -
  from assms have "of_int (- k) \<le> z" by simp
  then have "- k \<le> round_even z" by (rule round_even_ge)
  moreover from assms have "z \<le> of_int k" by linarith
  then have "round_even z \<le> k" by (rule round_even_le)
  ultimately show ?thesis by linarith
qed

lemma round_even_abs_ge:
  assumes "of_int k \<le> \<bar>z\<bar>"
  shows "k \<le> \<bar>round_even z\<bar>"
proof (cases "0 \<le> z")
  case True
  with assms have "of_int k \<le> z" by simp
  then have "k \<le> round_even z" by (rule round_even_ge)
  then show ?thesis by linarith
next
  case False
  with assms have "z \<le> of_int (- k)" by simp
  then have "round_even z \<le> - k" by (rule round_even_le)
  then show ?thesis by linarith
qed

subsection \<open>Powers of two\<close>

lemma pow2_pos [simp]: "0 < pow2 i"
  by (simp add: pow2_def)

lemma pow2_nonneg [simp]: "0 \<le> pow2 i"
  by (simp add: pow2_def)

lemma pow2_neq0 [simp]: "pow2 i \<noteq> 0"
  by (simp add: pow2_def)

lemma pow2_add: "pow2 (i + j) = pow2 i * pow2 j"
  by (simp add: pow2_def powr_add)

lemma pow2_nat: "pow2 (int n) = 2 ^ n"
  unfolding pow2_def using powr_realpow [of 2 n] by simp

lemma pow2_mono: "i \<le> j \<Longrightarrow> pow2 i \<le> pow2 j"
  unfolding pow2_def by (rule powr_mono) simp_all

lemma pow2_less_iff: "pow2 i < pow2 j \<longleftrightarrow> i < j"
  by (simp add: pow2_def)

lemma pow2_split:
  assumes "j \<le> i"
  shows "pow2 i = of_int (2 ^ nat (i - j)) * pow2 j"
proof -
  have "pow2 i = pow2 (int (nat (i - j)) + j)" using assms by simp
  also have "\<dots> = pow2 (int (nat (i - j))) * pow2 j" by (rule pow2_add)
  finally show ?thesis by (simp only: pow2_nat of_int_power of_int_numeral)
qed

lemma pow2_neg_nat: "pow2 (- int n) = 1 / 2 ^ n"
  unfolding pow2_def using powr_minus [of 2 "real n"] powr_realpow [of 2 n]
  by (simp add: field_simps)

lemma of_int_abs_less_pow: "\<bar>k\<bar> < 2 ^ n \<Longrightarrow> \<bar>of_int k :: real\<bar> < 2 ^ n"
  by (metis of_int_abs of_int_less_numeral_power_cancel_iff)

subsection \<open>The exponent and the unit in the last place\<close>

lemma ulp64_pos [simp]: "0 < ulp64 x"
  by (simp add: ulp64_def)

lemma ulp64_nonneg [simp]: "0 \<le> ulp64 x"
  by (simp add: ulp64_def)

lemma ulp64_neq0 [simp]: "ulp64 x \<noteq> 0"
  by (simp add: ulp64_def)

lemma div_ulp64_mono: "x \<le> y \<Longrightarrow> x / ulp64 z \<le> y / ulp64 z"
  by (rule divide_right_mono) simp_all

lemma exponent64_ge: "- 1022 \<le> exponent64 x"
  by (simp add: exponent64_def)

lemma exponent64_upper:
  assumes "x \<noteq> 0"
  shows "\<bar>x\<bar> < pow2 (exponent64 x + 1)"
proof -
  have "log 2 \<bar>x\<bar> < of_int \<lfloor>log 2 \<bar>x\<bar>\<rfloor> + 1" by linarith
  also have "\<dots> \<le> of_int (exponent64 x + 1)" by (simp add: exponent64_def)
  finally have "2 powr log 2 \<bar>x\<bar> < 2 powr of_int (exponent64 x + 1)"
    by simp
  with assms show ?thesis by (simp add: pow2_def)
qed

lemma exponent64_lower:
  assumes "x \<noteq> 0" and "- 1022 < exponent64 x"
  shows "pow2 (exponent64 x) \<le> \<bar>x\<bar>"
proof -
  from assms(2) have "exponent64 x = \<lfloor>log 2 \<bar>x\<bar>\<rfloor>"
    by (simp add: exponent64_def max_def split: if_splits)
  then have "of_int (exponent64 x) \<le> log 2 \<bar>x\<bar>" by simp
  then have "2 powr of_int (exponent64 x) \<le> 2 powr log 2 \<bar>x\<bar>" by (simp add: powr_mono)
  with assms(1) show ?thesis by (simp add: pow2_def)
qed

lemma exponent64_eqI:
  assumes "pow2 e \<le> \<bar>x\<bar>" and "\<bar>x\<bar> < pow2 (e + 1)" and "- 1022 \<le> e"
  shows "exponent64 x = e"
proof -
  from assms(1) have x: "0 < \<bar>x\<bar>" using pow2_pos [of e] by linarith
  have "log 2 (pow2 e) \<le> log 2 \<bar>x\<bar>"
    by (subst log_le_cancel_iff) (use assms(1) x in simp_all)
  then have l: "of_int e \<le> log 2 \<bar>x\<bar>" by (simp add: pow2_def)
  have "log 2 \<bar>x\<bar> < log 2 (pow2 (e + 1))"
    by (subst log_less_cancel_iff) (use assms(2) x in simp_all)
  then have u: "log 2 \<bar>x\<bar> < of_int e + 1" by (simp add: pow2_def)
  from l u have "\<lfloor>log 2 \<bar>x\<bar>\<rfloor> = e" by linarith
  with assms(3) show ?thesis by (simp add: exponent64_def)
qed

lemma exponent64_mono:
  assumes "0 < x" and "x \<le> x'"
  shows "exponent64 x \<le> exponent64 x'"
proof -
  from assms have "log 2 \<bar>x\<bar> \<le> log 2 \<bar>x'\<bar>" by simp
  then have "\<lfloor>log 2 \<bar>x\<bar>\<rfloor> \<le> \<lfloor>log 2 \<bar>x'\<bar>\<rfloor>" by (rule floor_mono)
  then show ?thesis by (simp add: exponent64_def)
qed

lemma exponent64_uminus [simp]: "exponent64 (- x) = exponent64 x"
  by (simp add: exponent64_def)

lemma ulp64_uminus [simp]: "ulp64 (- x) = ulp64 x"
  by (simp add: ulp64_def)

lemma scaled_bound:
  assumes "x \<noteq> 0"
  shows "\<bar>x / ulp64 x\<bar> < 2 ^ 53"
proof -
  have "\<bar>x\<bar> < pow2 (exponent64 x + 1)" by (rule exponent64_upper [OF assms])
  also have "\<dots> = pow2 (int 53 + (exponent64 x - 52))" by (simp add: algebra_simps)
  also have "\<dots> = 2 ^ 53 * ulp64 x" by (simp only: pow2_add pow2_nat ulp64_def)
  finally have "\<bar>x\<bar> / ulp64 x < 2 ^ 53" by (simp add: pos_divide_less_eq)
  then show ?thesis by simp
qed

lemma scaled_lower:
  assumes "x \<noteq> 0" and "- 1022 < exponent64 x"
  shows "2 ^ 52 \<le> \<bar>x / ulp64 x\<bar>"
proof -
  have "2 ^ 52 * ulp64 x = pow2 (int 52 + (exponent64 x - 52))"
    by (simp only: pow2_add pow2_nat ulp64_def)
  also have "\<dots> = pow2 (exponent64 x)" by (simp add: algebra_simps)
  also have "\<dots> \<le> \<bar>x\<bar>" by (rule exponent64_lower [OF assms])
  finally have "2 ^ 52 \<le> \<bar>x\<bar> / ulp64 x" by (simp add: pos_le_divide_eq)
  then show ?thesis by simp
qed

subsection \<open>The nearest number of the format\<close>

lemma nearest64_uminus: "nearest64 (- x) = - nearest64 x"
  by (simp add: nearest64_def round_even_uminus)

lemma nearest64_zero [simp]: "nearest64 0 = 0"
  by (simp add: nearest64_def)

lemma nearest64_multiple:
  assumes "exponent64 x - 52 \<le> j" and "x = of_int k * pow2 j"
  shows "nearest64 x = x"
proof -
  let ?n = "nat (j - (exponent64 x - 52))"
  have p: "pow2 j = of_int (2 ^ ?n) * ulp64 x"
    unfolding ulp64_def by (rule pow2_split [OF assms(1)])
  have "x = of_int k * pow2 j" by (rule assms(2))
  also have "\<dots> = of_int k * (of_int (2 ^ ?n) * ulp64 x)" by (simp only: p)
  also have "\<dots> = of_int (k * 2 ^ ?n) * ulp64 x" by simp
  finally have x: "x = of_int (k * 2 ^ ?n) * ulp64 x" .
  then have "x / ulp64 x = of_int (k * 2 ^ ?n)" by (simp add: field_simps)
  then have "round_even (x / ulp64 x) = k * 2 ^ ?n" by (simp only: round_even_int)
  then have "nearest64 x = of_int (k * 2 ^ ?n) * ulp64 x" by (simp only: nearest64_def)
  with x show ?thesis by simp
qed

lemma exponent64_bound:
  assumes "\<bar>k\<bar> < 2 ^ 53" and "- 1074 \<le> j" and "x = of_int k * pow2 j" and "x \<noteq> 0"
  shows "exponent64 x - 52 \<le> j"
proof (cases "- 1022 < exponent64 x")
  case True
  with assms(4) have "pow2 (exponent64 x) \<le> \<bar>x\<bar>" by (simp add: exponent64_lower)
  also have "\<bar>x\<bar> = \<bar>of_int k\<bar> * pow2 j" by (simp add: assms(3) abs_mult)
  also have "\<dots> < 2 ^ 53 * pow2 j"
    using of_int_abs_less_pow [OF assms(1)] by simp
  also have "\<dots> = pow2 (int 53 + j)" by (simp only: pow2_add pow2_nat)
  finally have "exponent64 x < int 53 + j" by (simp only: pow2_less_iff)
  then show ?thesis by simp
next
  case False
  with exponent64_ge [of x] have "exponent64 x = - 1022" by simp
  with assms(2) show ?thesis by simp
qed

lemma nearest64_double:
  assumes "is_double x"
  shows "nearest64 x = x"
proof (cases "x = 0")
  case True
  then show ?thesis by simp
next
  case False
  from assms obtain k j where kj: "\<bar>k\<bar> < 2 ^ 53" "- 1074 \<le> j" "x = of_int k * pow2 j"
    by (auto simp: is_double_def)
  from exponent64_bound [OF kj False] kj(3) show ?thesis by (rule nearest64_multiple)
qed

lemma is_double_bound:
  assumes "is_double x"
  shows "\<bar>x\<bar> < 2 ^ 1024"
proof -
  from assms obtain k j where kj: "\<bar>k\<bar> < 2 ^ 53" "j \<le> 971" "x = of_int k * pow2 j"
    by (auto simp: is_double_def)
  have "\<bar>x\<bar> = \<bar>of_int k\<bar> * pow2 j" by (simp add: kj(3) abs_mult)
  also have "\<dots> < 2 ^ 53 * pow2 j"
    using of_int_abs_less_pow [OF kj(1)] by simp
  also have "\<dots> \<le> 2 ^ 53 * pow2 (int 971)"
    by (rule mult_left_mono [OF pow2_mono]) (use kj(2) in simp_all)
  also have "\<dots> = 2 ^ 1024" by (simp only: pow2_nat) simp
  finally show ?thesis .
qed

lemma round64_double: "is_double x \<Longrightarrow> round64 x = Fin x"
  using is_double_bound [of x] by (simp add: round64_def nearest64_double)

lemma nearest64_nonneg: "0 \<le> x \<Longrightarrow> 0 \<le> nearest64 x"
proof -
  assume "0 \<le> x"
  then have "0 / ulp64 x \<le> x / ulp64 x" by (rule div_ulp64_mono)
  then have "round_even 0 \<le> round_even (x / ulp64 x)"
    by (intro round_even_mono) simp
  then show ?thesis by (simp add: nearest64_def)
qed

lemma nearest64_mono_pos:
  assumes "0 < x" and "x \<le> x'"
  shows "nearest64 x \<le> nearest64 x'"
proof -
  let ?e = "exponent64 x" and ?e' = "exponent64 x'"
  have ee: "?e \<le> ?e'" by (rule exponent64_mono [OF assms])
  show ?thesis
  proof (cases "?e = ?e'")
    case True
    then have u: "ulp64 x' = ulp64 x" by (simp add: ulp64_def)
    have "x / ulp64 x \<le> x' / ulp64 x" using assms(2) by (rule div_ulp64_mono)
    then have "round_even (x / ulp64 x) \<le> round_even (x' / ulp64 x)" by (rule round_even_mono)
    then have "(of_int (round_even (x / ulp64 x)) :: real) \<le> of_int (round_even (x' / ulp64 x))"
      by simp
    then show ?thesis unfolding nearest64_def u by (simp add: mult_right_mono)
  next
    case False
    with ee have lt: "?e < ?e'" by simp
    let ?B = "pow2 ?e'"
    have x0: "x \<noteq> 0" "x' \<noteq> 0" using assms by auto
    have "x < pow2 (?e + 1)" using exponent64_upper [OF x0(1)] assms(1) by simp
    also have "\<dots> \<le> ?B" by (rule pow2_mono) (use lt in simp)
    finally have xB: "x \<le> ?B" by simp
    have "- 1022 < ?e'" using lt exponent64_ge [of x] by linarith
    then have Bx': "?B \<le> x'" using exponent64_lower [OF x0(2)] assms by simp
    have B1: "?B = of_int (2 ^ nat (?e' - (?e - 52))) * ulp64 x"
      unfolding ulp64_def by (rule pow2_split) (use lt in simp)
    have B2: "?B = of_int (2 ^ nat (?e' - (?e' - 52))) * ulp64 x'"
      unfolding ulp64_def by (rule pow2_split) simp
    have "x / ulp64 x \<le> ?B / ulp64 x" by (rule div_ulp64_mono [OF xB])
    also have "?B / ulp64 x = of_int (2 ^ nat (?e' - (?e - 52)))"
      by (subst B1) simp
    finally have "round_even (x / ulp64 x) \<le> 2 ^ nat (?e' - (?e - 52))"
      by (rule round_even_le)
    then have "(of_int (round_even (x / ulp64 x)) :: real) \<le> of_int (2 ^ nat (?e' - (?e - 52)))"
      by (simp only: of_int_le_iff)
    then have "nearest64 x \<le> of_int (2 ^ nat (?e' - (?e - 52))) * ulp64 x"
      unfolding nearest64_def by (rule mult_right_mono) simp
    then have lo: "nearest64 x \<le> ?B" by (simp only: B1 [symmetric])
    have "?B / ulp64 x' \<le> x' / ulp64 x'" by (rule div_ulp64_mono [OF Bx'])
    moreover have "?B / ulp64 x' = of_int (2 ^ nat (?e' - (?e' - 52)))"
      by (subst B2) simp
    ultimately have "of_int (2 ^ nat (?e' - (?e' - 52))) \<le> x' / ulp64 x'" by simp
    then have "2 ^ nat (?e' - (?e' - 52)) \<le> round_even (x' / ulp64 x')"
      by (rule round_even_ge)
    then have "(of_int (2 ^ nat (?e' - (?e' - 52))) :: real) \<le> of_int (round_even (x' / ulp64 x'))"
      by (simp only: of_int_le_iff)
    then have "of_int (2 ^ nat (?e' - (?e' - 52))) * ulp64 x' \<le> nearest64 x'"
      unfolding nearest64_def by (rule mult_right_mono) simp
    then have "?B \<le> nearest64 x'" by (simp only: B2 [symmetric])
    with lo show ?thesis by simp
  qed
qed

lemma nearest64_mono:
  assumes "x \<le> x'"
  shows "nearest64 x \<le> nearest64 x'"
proof -
  consider "0 < x" | "x' < 0" | "x \<le> 0" "0 \<le> x'" by linarith
  then show ?thesis
  proof cases
    case 1
    then show ?thesis using assms by (rule nearest64_mono_pos)
  next
    case 2
    then have "nearest64 (- x') \<le> nearest64 (- x)"
      using assms by (intro nearest64_mono_pos) simp_all
    then show ?thesis by (simp add: nearest64_uminus)
  next
    case 3
    from 3(1) have "0 \<le> nearest64 (- x)" by (intro nearest64_nonneg) simp
    then have "nearest64 x \<le> 0" by (simp add: nearest64_uminus)
    moreover from 3(2) have "0 \<le> nearest64 x'" by (rule nearest64_nonneg)
    ultimately show ?thesis by simp
  qed
qed

subsection \<open>Rounding\<close>

lemma round64_cases:
  "round64 x = Fin (nearest64 x) \<and> \<bar>nearest64 x\<bar> < 2 ^ 1024
   \<or> round64 x = PInf \<and> 0 < x \<and> 2 ^ 1024 \<le> nearest64 x
   \<or> round64 x = NInf \<and> x < 0 \<and> nearest64 x \<le> - (2 ^ 1024)"
proof (cases "2 ^ 1024 \<le> \<bar>nearest64 x\<bar>")
  case False
  then show ?thesis by (simp add: round64_def)
next
  case True
  show ?thesis
  proof (cases "0 < x")
    case pos: True
    then have "0 \<le> nearest64 x" by (intro nearest64_nonneg) simp
    with True pos show ?thesis by (simp add: round64_def)
  next
    case neg: False
    then have "0 \<le> nearest64 (- x)" by (intro nearest64_nonneg) simp
    then have le: "nearest64 x \<le> 0" by (simp add: nearest64_uminus)
    with True have big: "nearest64 x \<le> - (2 ^ 1024)" by linarith
    then have "x \<noteq> 0" by auto
    with neg True big show ?thesis by (simp add: round64_def)
  qed
qed

lemma round64_zero [simp]: "round64 0 = Fin 0"
  by (simp add: round64_def)

text \<open>Rounding does not cross a number of the format.\<close>

lemma round64_between:
  assumes "is_double lo" and "is_double hi" and "lo \<le> x" and "x \<le> hi"
  shows "\<exists>y. round64 x = Fin y \<and> lo \<le> y \<and> y \<le> hi"
proof -
  have l: "lo \<le> nearest64 x"
    using nearest64_mono [OF assms(3)] assms(1) by (simp add: nearest64_double)
  have h: "nearest64 x \<le> hi"
    using nearest64_mono [OF assms(4)] assms(2) by (simp add: nearest64_double)
  from l h is_double_bound [OF assms(1)] is_double_bound [OF assms(2)]
  have "\<bar>nearest64 x\<bar> < 2 ^ 1024" by linarith
  with l h show ?thesis by (simp add: round64_def)
qed

lemma round64_mono:
  assumes "x \<le> x'" and "round64 x = Fin y" and "round64 x' = Fin y'"
  shows "y \<le> y'"
proof -
  from assms(2) have "y = nearest64 x" by (simp add: round64_def Let_def split: if_splits)
  moreover from assms(3) have "y' = nearest64 x'"
    by (simp add: round64_def Let_def split: if_splits)
  ultimately show ?thesis using nearest64_mono [OF assms(1)] by simp
qed

lemma nearest64_is_double:
  assumes "\<bar>nearest64 x\<bar> < 2 ^ 1024"
  shows "is_double (nearest64 x)"
proof (cases "x = 0")
  case True
  have "is_double 0" unfolding is_double_def by (rule exI [of _ 0], rule exI [of _ 0]) simp
  with True show ?thesis by simp
next
  case False
  let ?e = "exponent64 x" and ?m = "round_even (x / ulp64 x)"
  have y: "nearest64 x = of_int ?m * pow2 (?e - 52)"
    by (simp add: nearest64_def ulp64_def)
  have "\<bar>x / ulp64 x\<bar> \<le> of_int (2 ^ 53)" using scaled_bound [OF False] by simp
  then have m_le: "\<bar>?m\<bar> \<le> 2 ^ 53" by (rule round_even_abs_le)
  have e_ge: "- 1022 \<le> ?e" by (rule exponent64_ge)
  have e_le: "?e \<le> 1023"
  proof (rule ccontr)
    assume "\<not> ?e \<le> 1023"
    then have big: "1024 \<le> ?e" by simp
    then have "of_int (2 ^ 52) \<le> \<bar>x / ulp64 x\<bar>" using scaled_lower [OF False] by simp
    then have "2 ^ 52 \<le> \<bar>?m\<bar>" by (rule round_even_abs_ge)
    then have "(of_int (2 ^ 52) :: real) \<le> of_int \<bar>?m\<bar>" by (simp only: of_int_le_iff)
    then have "(2::real) ^ 52 \<le> \<bar>of_int ?m\<bar>" by simp
    then have "2 ^ 52 * pow2 (?e - 52) \<le> \<bar>of_int ?m\<bar> * pow2 (?e - 52)"
      by (rule mult_right_mono) simp
    moreover have "2 ^ 52 * pow2 (?e - 52) = pow2 (int 52 + (?e - 52))"
      by (simp only: pow2_add pow2_nat)
    moreover have "pow2 (int 1024) \<le> pow2 (int 52 + (?e - 52))"
      by (rule pow2_mono) (use big in simp)
    ultimately have "2 ^ 1024 \<le> \<bar>nearest64 x\<bar>"
      by (simp only: pow2_nat y abs_mult abs_of_pos [OF pow2_pos])
    with assms show False by simp
  qed
  show ?thesis
  proof (cases "\<bar>?m\<bar> < 2 ^ 53")
    case True
    show ?thesis unfolding is_double_def
      by (rule exI [of _ ?m], rule exI [of _ "?e - 52"]) (use True e_ge e_le y in simp)
  next
    case False
    with m_le have m: "\<bar>?m\<bar> = 2 ^ 53" by simp
    then obtain s :: int where s: "?m = s * 2 ^ 53" "\<bar>s\<bar> = 1"
      by (cases "0 \<le> ?m") (auto intro: that [of 1] that [of "- 1"])
    have "pow2 (?e - 51) = pow2 (int 1 + (?e - 52))" by (simp add: algebra_simps)
    also have "\<dots> = 2 * pow2 (?e - 52)" by (simp only: pow2_add pow2_nat) simp
    finally have y2: "nearest64 x = of_int (s * 2 ^ 52) * pow2 (?e - 51)"
      by (simp add: y s(1))
    have "?e \<noteq> 1023"
    proof
      assume e: "?e = 1023"
      have "\<bar>of_int ?m :: real\<bar> = 2 ^ 53"
        using m by (metis of_int_abs of_int_numeral of_int_power)
      then have "\<bar>nearest64 x\<bar> = 2 ^ 53 * pow2 (int 971)"
        by (simp add: y e abs_mult)
      also have "\<dots> = 2 ^ 1024" by (simp only: pow2_nat) simp
      finally show False using assms by simp
    qed
    with e_le have e_le': "?e \<le> 1022" by simp
    have "\<bar>s * 2 ^ 52\<bar> < 2 ^ 53" using s(2) by (simp add: abs_mult)
    then show ?thesis unfolding is_double_def
      by (intro exI [of _ "s * 2 ^ 52"] exI [of _ "?e - 51"]) (use e_ge e_le' y2 in simp)
  qed
qed

lemma round64_is_double: "round64 x = Fin y \<Longrightarrow> is_double y"
  using nearest64_is_double [of x] round64_cases [of x] by auto

subsection \<open>Numbers of the format\<close>

lemma is_double_int: "\<bar>k\<bar> < 2 ^ 53 \<Longrightarrow> is_double (of_int k)"
  unfolding is_double_def
  by (rule exI [of _ k], rule exI [of _ 0]) (simp add: pow2_def)

lemma is_double_dyadic:
  assumes "\<bar>k\<bar> < 2 ^ 53" and "n \<le> 1074"
  shows "is_double (of_int k / 2 ^ n)"
proof -
  have "of_int k / 2 ^ n = of_int k * pow2 (- int n)" by (simp add: pow2_neg_nat)
  then show ?thesis unfolding is_double_def
    by (intro exI [of _ k] exI [of _ "- int n"]) (use assms in simp)
qed

lemma is_double_scaled:
  assumes "\<bar>k\<bar> < 2 ^ 53" and "n \<le> 971"
  shows "is_double (of_int k * 2 ^ n)"
  unfolding is_double_def
  by (intro exI [of _ k] exI [of _ "int n"]) (use assms in \<open>simp add: pow2_nat\<close>)

lemma is_double_0 [simp]: "is_double 0"
  using is_double_int [of 0] by simp

lemma is_double_1 [simp]: "is_double 1"
  using is_double_int [of 1] by simp

lemma is_double_uminus: "is_double x \<Longrightarrow> is_double (- x)"
  unfolding is_double_def
  by (elim exE conjE, rule_tac x = "- k" in exI, rule_tac x = j in exI) simp

lemma is_double_nat:
  assumes "n < 2 ^ 53"
  shows "is_double (real n)"
proof -
  have "\<bar>int n\<bar> < 2 ^ 53" using assms by (simp add: of_nat_less_numeral_power_cancel_iff)
  then have "is_double (of_int (int n))" by (rule is_double_int)
  then show ?thesis by simp
qed

text \<open>Evaluating \<open>round64\<close> at a given number, from its exponent and its rounded
  significand.\<close>

lemma round64_eval:
  assumes "pow2 e \<le> \<bar>x\<bar>" and "\<bar>x\<bar> < pow2 (e + 1)" and "- 1022 \<le> e"
    and "round_even (x / pow2 (e - 52)) = m"
    and "\<bar>of_int m * pow2 (e - 52)\<bar> < 2 ^ 1024"
  shows "round64 x = Fin (of_int m * pow2 (e - 52))"
proof -
  have "exponent64 x = e" by (rule exponent64_eqI [OF assms(1,2,3)])
  then have "nearest64 x = of_int m * pow2 (e - 52)"
    by (simp add: nearest64_def ulp64_def assms(4))
  with assms(5) show ?thesis by (simp add: round64_def)
qed

lemma pow2_numeral: "pow2 (numeral n) = 2 ^ numeral n"
  using pow2_nat [of "numeral n"] by simp

lemma pow2_1 [simp]: "pow2 1 = 2"
  by (simp add: pow2_def)

lemma round64_eval_small:
  assumes "1 / 2 ^ n \<le> x" and "x < 2 / 2 ^ n" and "n \<le> 1022"
    and "round_even (x * 2 ^ (n + 52)) = m"
  shows "round64 x = Fin (of_int m / 2 ^ (n + 52))"
proof -
  have p1: "pow2 (- int n) = 1 / 2 ^ n" by (rule pow2_neg_nat)
  have "pow2 1 = 2" by (simp add: pow2_def)
  moreover have "pow2 (- int n + 1) = pow2 (- int n) * pow2 1" by (rule pow2_add)
  ultimately have p2: "pow2 (- int n + 1) = 2 / 2 ^ n" by (simp add: p1)
  have p2': "pow2 (1 - int n) = 2 / 2 ^ n" using p2 by (simp add: algebra_simps)
  have "pow2 (- int n - 52) = pow2 (- int (n + 52))" by simp
  then have p3: "pow2 (- int n - 52) = 1 / 2 ^ (n + 52)" by (simp only: pow2_neg_nat)
  have "0 < 1 / (2::real) ^ n" by simp
  with assms(1) have x: "0 < x" by linarith
  have m: "round_even (x / pow2 (- int n - 52)) = m" by (simp add: p3 assms(4))
  have "x * 2 ^ (n + 52) < 2 ^ 53" using assms(2) by (simp add: field_simps power_add)
  then have "x * 2 ^ (n + 52) \<le> of_int (2 ^ 53)" by simp
  then have "round_even (x * 2 ^ (n + 52)) \<le> 2 ^ 53" by (rule round_even_le)
  moreover have "of_int 0 \<le> x * 2 ^ (n + 52)" using x by simp
  then have "0 \<le> round_even (x * 2 ^ (n + 52))" by (rule round_even_ge)
  ultimately have mb: "0 \<le> m" "m \<le> 2 ^ 53" using assms(4) by simp_all
  then have "(of_int m :: real) \<le> of_int (2 ^ 53)" by (simp only: of_int_le_iff)
  then have m53: "(of_int m :: real) \<le> 2 ^ 53" by simp
  have "of_int m * 1 \<le> (2 ^ 53 :: real) * 2 ^ (n + 52)"
    by (rule mult_mono) (use m53 in simp_all)
  then have "of_int m / 2 ^ (n + 52) \<le> (2 ^ 53 :: real)" by (simp add: pos_divide_le_eq)
  moreover have "0 \<le> of_int m / (2 ^ (n + 52) :: real)" using mb(1) by simp
  moreover have "(2 ^ 53 :: real) < 2 ^ 1024" by simp
  ultimately have b: "\<bar>of_int m * pow2 (- int n - 52)\<bar> < 2 ^ 1024"
    by (simp only: p3) simp
  have "round64 x = Fin (of_int m * pow2 (- int n - 52))"
    by (rule round64_eval [OF _ _ _ m b]) (use assms(1,2,3) x in \<open>simp_all add: p1 p2 p2'\<close>)
  then show ?thesis by (simp add: p3)
qed

subsection \<open>Some numbers and their rounding\<close>

lemma round64_of_int: "\<bar>k\<bar> < 2 ^ 53 \<Longrightarrow> round64 (of_int k) = Fin (of_int k)"
  by (rule round64_double [OF is_double_int])

lemma round64_1 [simp]: "round64 1 = Fin 1"
  by (rule round64_double) simp

lemma round64_2 [simp]: "round64 2 = Fin 2"
  using round64_of_int [of 2] by simp

lemma round64_half [simp]: "round64 (1 / 2) = Fin (1 / 2)"
  using round64_double [OF is_double_dyadic [of 1 1]] by simp

lemma round64_quarter [simp]: "round64 (1 / 4) = Fin (1 / 4)"
  using round64_double [OF is_double_dyadic [of 1 2]] by simp

lemma round64_numeral [simp]:
  "numeral n < (2 ^ 53 :: int) \<Longrightarrow> round64 (numeral n) = Fin (numeral n)"
  using round64_of_int [of "numeral n"] by simp

lemma round64_2p53: "round64 9007199254740992 = Fin 9007199254740992"
  using round64_double [OF is_double_scaled [of 1 53]] by simp

lemma round64_2p54: "round64 18014398509481984 = Fin 18014398509481984"
  using round64_double [OF is_double_scaled [of 1 54]] by simp

lemma round64_2p53_2: "round64 9007199254740994 = Fin 9007199254740994"
  using round64_double [OF is_double_scaled [of 4503599627370497 1]] by simp

lemma round64_half_up:
  "round64 (4503599627370497 / 9007199254740992) = Fin (4503599627370497 / 9007199254740992)"
  using round64_double [OF is_double_dyadic [of 4503599627370497 53]] by simp

text \<open>
  A tie: \<open>2\<^sup>5\<^sup>3 + 1\<close> lies half way between two numbers of the format and goes to the
  even one.
\<close>

lemma round64_2p53_1: "round64 9007199254740993 = Fin 9007199254740992"
  using round64_eval [of 53 9007199254740993 4503599627370496]
  by (simp add: pow2_numeral round_even_def)

text \<open>
  Just below \<open>1\<close> the format is spaced by \<open>2\<^sup>-\<^sup>5\<^sup>3\<close>: every real from \<open>1 - 2\<^sup>-\<^sup>5\<^sup>4\<close> to \<open>1\<close>
  rounds to \<open>1\<close>. Just above \<open>1\<close> the next number of the format is \<open>1 + 2\<^sup>-\<^sup>5\<^sup>2\<close>.
\<close>

lemma nearest64_1 [simp]: "nearest64 1 = 1"
  by (rule nearest64_double) simp

lemma nearest64_le_1: "x \<le> 1 \<Longrightarrow> nearest64 x \<le> 1"
  using nearest64_mono [of x 1] by simp

lemma nearest64_ge_1: "1 \<le> x \<Longrightarrow> 1 \<le> nearest64 x"
  using nearest64_mono [of 1 x] by simp

lemma nearest64_nonpos: "x \<le> 0 \<Longrightarrow> nearest64 x \<le> 0"
  using nearest64_mono [of x 0] by simp

lemma round64_nonneg:
  assumes "0 \<le> z"
  shows "round64 z = (if nearest64 z < 2 ^ 1024 then Fin (nearest64 z) else PInf)"
  using round64_cases [of z] nearest64_nonneg [OF assms] assms by auto

lemma round64_nonpos:
  assumes "z \<le> 0"
  shows "round64 z = (if - (2 ^ 1024) < nearest64 z then Fin (nearest64 z) else NInf)"
  using round64_cases [of z] nearest64_nonpos [OF assms] assms by auto

lemma round64_unit:
  assumes "0 \<le> z" and "z \<le> 1"
  shows "round64 z = Fin (nearest64 z)"
proof -
  have "nearest64 z \<le> 1" by (rule nearest64_le_1 [OF assms(2)])
  moreover have "(1::real) < 2 ^ 1024" by simp
  ultimately have "nearest64 z < 2 ^ 1024" by (rule le_less_trans)
  then show ?thesis by (simp add: round64_nonneg [OF assms(1)])
qed

lemma round64_below_1:
  "round64 (18014398509481983 / 18014398509481984) = Fin 1"
  using round64_eval_small [of 1 "18014398509481983 / 18014398509481984" 9007199254740992]
  by (simp add: round_even_def)

lemma round64_near_1:
  assumes "1 - 1 / 2 ^ 54 \<le> z" and "z \<le> 1"
  shows "round64 z = Fin 1"
proof -
  have "nearest64 (18014398509481983 / 18014398509481984) = 1"
    using round64_cases [of "18014398509481983 / 18014398509481984"]
    by (simp add: round64_below_1)
  moreover have "nearest64 (18014398509481983 / 18014398509481984) \<le> nearest64 z"
    using assms(1) by (intro nearest64_mono) simp
  ultimately have "1 \<le> nearest64 z" by simp
  with nearest64_le_1 [OF assms(2)] have "nearest64 z = 1" by simp
  moreover have "0 \<le> z" using assms(1) by simp
  ultimately show ?thesis using round64_unit [of z] assms(2) by simp
qed

lemma double_above_1:
  assumes "is_double x" and "1 < x"
  shows "1 + 1 / 2 ^ 52 \<le> x"
proof (cases "x < 2")
  case False
  have "(1::real) + 1 / 2 ^ 52 \<le> 2" by simp
  with False show ?thesis by linarith
next
  case True
  have e: "exponent64 x = 0"
    using assms(2) True by (intro exponent64_eqI) (simp_all add: pow2_def)
  have u: "ulp64 x = 1 / 2 ^ 52"
    using pow2_neg_nat [of 52] by (simp add: ulp64_def e)
  define m where "m = round_even (x / ulp64 x)"
  have "nearest64 x = x" by (rule nearest64_double [OF assms(1)])
  then have x: "x = of_int m / 2 ^ 52" by (simp add: nearest64_def m_def u)
  with assms(2) have "(2::real) ^ 52 < of_int m" by (simp add: field_simps)
  then have "(2::int) ^ 52 < m" by (metis of_int_less_iff of_int_numeral of_int_power)
  then have "(2::int) ^ 52 + 1 \<le> m" by simp
  then have "(of_int ((2::int) ^ 52 + 1) :: real) \<le> of_int m" by (simp only: of_int_le_iff)
  then have "(2::real) ^ 52 + 1 \<le> of_int m" by simp
  then show ?thesis unfolding x by (simp add: field_simps)
qed

lemma round64_sqrt_small:
  assumes "1 / 4 ^ n \<le> p" and "p < 4 / 4 ^ n" and "n \<le> 1022"
    and "(of_int m - 1 / 2)\<^sup>2 < p * 4 ^ (n + 52)"
    and "p * 4 ^ (n + 52) < (of_int m + 1 / 2)\<^sup>2" and "0 \<le> m"
  shows "round64 (sqrt p) = Fin (of_int m / 2 ^ (n + 52))"
proof -
  have four: "(4::real) ^ k = (2 ^ k)\<^sup>2" for k
    by (simp add: power2_eq_square flip: power_mult_distrib)
  have s4: "sqrt ((4::real) ^ k) = 2 ^ k" for k by (simp add: four)
  have p0: "0 \<le> p" using assms(1) by (meson order_trans zero_le_divide_1_iff zero_le_numeral zero_le_power)
  have "sqrt (1 / 4 ^ n) \<le> sqrt p" using assms(1) by (simp only: real_sqrt_le_iff)
  then have lo: "1 / 2 ^ n \<le> sqrt p" by (simp add: real_sqrt_divide s4)
  have "sqrt p < sqrt (4 / 4 ^ n)" using assms(2) by (simp only: real_sqrt_less_iff)
  moreover have "sqrt (4::real) = 2" using s4 [of 1] by simp
  ultimately have hi: "sqrt p < 2 / 2 ^ n" by (simp add: real_sqrt_divide s4)
  have sq: "sqrt p * 2 ^ (n + 52) = sqrt (p * 4 ^ (n + 52))"
    by (simp add: real_sqrt_mult s4)
  have a: "of_int m - 1 / 2 < sqrt p * 2 ^ (n + 52)"
    unfolding sq by (rule real_less_rsqrt [OF assms(4)])
  have "0 \<le> (of_int m :: real) + 1 / 2" using assms(6) by simp
  then have b: "sqrt p * 2 ^ (n + 52) < of_int m + 1 / 2"
    unfolding sq by (rule real_less_lsqrt [OF _ assms(5)])
  have "round_even (sqrt p * 2 ^ (n + 52)) = m" by (rule round_even_eqI [OF a b])
  from round64_eval_small [OF lo hi assms(3) this] show ?thesis .
qed

section \<open>Difference in floating-point arithmetic\<close>

lemma mul64_commute: "mul64 x y = mul64 y x"
  by (cases x; cases y) (simp_all add: mult.commute)

lemma weighted_sum64_eq:
  "weighted_sum64 ms ws = foldl add64 (Fin 0) (map2 (\<lambda>w m. mul64 (Fin w) (to_np m)) ws ms)"
proof -
  have "map2 (\<lambda>m w. mul64 (to_np m) (Fin w)) ms ws
        = map2 (\<lambda>w m. mul64 (Fin w) (to_np m)) ws ms"
    by (induction ms ws rule: list_induct2') (simp_all add: mul64_commute)
  then show ?thesis by (simp add: weighted_sum64_def py_sum64_def)
qed

lemma Difference64_computable:
  assumes "features \<noteq> []" and "computable features aa bb"
  shows "Difference64 features aa bb get_metrics =
     Inr (if get_metrics
          then WithMetrics (weighted_mean64 (map weight features) (per_feature features aa bb))
                 (per_feature features aa bb)
          else Only (weighted_mean64 (map weight features) (per_feature features aa bb)))"
proof -
  have loop: "Difference_loop features aa bb [] [] =
      Inr (per_feature features aa bb, map weight features)"
    using Difference_loop_computable [OF assms(2), of "[]" "[]"] by simp
  have ne: "per_feature features aa bb \<noteq> []"
    using assms(1) by (simp add: per_feature_def)
  show ?thesis
    using ne by (simp add: Difference64_def loop weighted_sum64_eq weight_total64_def
        py_sum64_def weighted_mean64_def)
qed

lemma foldl_add64_exact:
  "list_all is_double (partial_sums s xs) \<Longrightarrow>
   foldl add64 (Fin s) (map Fin xs) = Fin (s + sum_list xs)"
proof (induction xs arbitrary: s)
  case Nil
  then show ?case by simp
next
  case (Cons x xs)
  then have "round64 (s + x) = Fin (s + x)" by (simp add: round64_double)
  with Cons show ?case by (simp add: add.assoc)
qed

lemma products_exact:
  assumes "map to_np ms = map Fin rs"
    and "list_all is_double (map2 (\<lambda>w r. w * r) ws rs)"
  shows "map2 (\<lambda>w m. mul64 (Fin w) (to_np m)) ws ms = map Fin (map2 (\<lambda>w r. w * r) ws rs)"
  using assms
proof (induction ws arbitrary: ms rs)
  case Nil
  then show ?case by simp
next
  case (Cons w ws)
  show ?case
  proof (cases ms)
    case Nil
    with Cons.prems show ?thesis by simp
  next
    case (Cons m ms')
    with Cons.prems(1) obtain r rs' where rs: "rs = r # rs'" "to_np m = Fin r"
      "map to_np ms' = map Fin rs'"
      by (cases rs) auto
    with Cons.prems(2) have d: "is_double (w * r)"
      and rest: "list_all is_double (map2 (\<lambda>w r. w * r) ws rs')"
      by simp_all
    from Cons.IH [OF rs(3) rest] d rs Cons show ?thesis
      by (simp add: round64_double)
  qed
qed

lemma weighted_mean64_exact:
  assumes "map to_np ms = map Fin rs" and "no_rounding ws rs" and "sum_list ws \<noteq> 0"
  shows "weighted_mean64 ws ms = round64 (weighted_average ws rs)"
proof -
  from assms(2) have p: "list_all is_double (map2 (\<lambda>w r. w * r) ws rs)"
    and ps: "list_all is_double (partial_sums 0 (map2 (\<lambda>w r. w * r) ws rs))"
    and pw: "list_all is_double (partial_sums 0 ws)"
    by (simp_all add: no_rounding_def)
  have num: "foldl add64 (Fin 0) (map2 (\<lambda>w m. mul64 (Fin w) (to_np m)) ws ms)
             = Fin (sum_list (map2 (\<lambda>w r. w * r) ws rs))"
    using foldl_add64_exact [OF ps] by (simp add: products_exact [OF assms(1) p])
  have den: "foldl add64 (Fin 0) (map Fin ws) = Fin (sum_list ws)"
    using foldl_add64_exact [OF pw] by simp
  show ?thesis
    using assms(3) by (simp add: weighted_mean64_def num den weighted_average_def)
qed

section \<open>The weighted average\<close>

text \<open>
  Claim C1, with the arithmetic of the source. For a feature space with registered
  features and two elements that contain every registered name (the metrics and remaps
  returning numbers), \<open>Difference\<close> returns, with \<open>get_metrics\<close>, the list \<open>[m\<^sub>1, \<dots>, m\<^sub>n]\<close>
  in registration order, and as its scalar the \<open>float64\<close> quotient of two \<open>float64\<close>
  sums: the rounded products \<open>w\<^sub>i \<sqdot> m\<^sub>i\<close> and the weights \<open>w\<^sub>i\<close>, each added from left to right
  with every partial sum rounded. When no product and no partial sum is rounded, that
  scalar is the real number \<open>(\<Sum> w\<^sub>i \<sqdot> m\<^sub>i) / (\<Sum> w\<^sub>i)\<close> rounded once.
\<close>

theorem Difference64_weighted_mean:
  assumes "features \<noteq> []" and "computable features aa bb"
  shows "Difference64 features aa bb get_metrics =
     Inr (if get_metrics
          then WithMetrics (weighted_mean64 (map weight features) (per_feature features aa bb))
                 (per_feature features aa bb)
          else Only (weighted_mean64 (map weight features) (per_feature features aa bb)))
     \<and> (\<forall>rs. map to_np (per_feature features aa bb) = map Fin rs
             \<and> no_rounding (map weight features) rs
             \<and> sum_list (map weight features) \<noteq> 0 \<longrightarrow>
           weighted_mean64 (map weight features) (per_feature features aa bb)
             = round64 (weighted_average (map weight features) rs))"
  using Difference64_computable [OF assms] by (simp add: weighted_mean64_exact)

lemma two_features_computable:
  "computable two_features [''color'' \<mapsto> ''red'', ''shape'' \<mapsto> ''square'']
     [''color'' \<mapsto> ''blue'', ''shape'' \<mapsto> ''square'']"
  by (simp add: computable_def two_features_def AddFeature_def normalized_metric_def
      DiscreteDistance_def)

lemma two_features_per_feature:
  "per_feature two_features [''color'' \<mapsto> ''red'', ''shape'' \<mapsto> ''square'']
     [''color'' \<mapsto> ''blue'', ''shape'' \<mapsto> ''square''] = [PyFloat 1, PyFloat 0]"
  by (simp add: per_feature_def two_features_def AddFeature_def normalized_metric_def
      DiscreteDistance_def)

theorem Difference64_weighted_mean_witness:
  "Difference64 two_features [''color'' \<mapsto> ''red'', ''shape'' \<mapsto> ''square'']
     [''color'' \<mapsto> ''blue'', ''shape'' \<mapsto> ''square''] True
   = Inr (WithMetrics (Fin (1 / 4)) [PyFloat 1, PyFloat 0])
   \<and> round64 (weighted_average [1, 3] [1, 0]) = Fin (1 / 4)"
proof -
  have ne: "two_features \<noteq> []" by (simp add: two_features_def AddFeature_def)
  have ws: "map weight two_features = [1, 3]" by (simp add: two_features_def AddFeature_def)
  have d: "is_double 3" "is_double 4" using is_double_int [of 3] is_double_int [of 4] by simp_all
  have nr: "no_rounding [1, 3] [1, 0]" by (simp add: no_rounding_def d)
  from Difference64_weighted_mean [OF ne two_features_computable, of True]
  have a: "Difference64 two_features [''color'' \<mapsto> ''red'', ''shape'' \<mapsto> ''square'']
     [''color'' \<mapsto> ''blue'', ''shape'' \<mapsto> ''square''] True
     = Inr (WithMetrics (weighted_mean64 [1, 3] [PyFloat 1, PyFloat 0]) [PyFloat 1, PyFloat 0])"
    and b: "\<forall>rs. map to_np [PyFloat 1, PyFloat 0] = map Fin rs \<and> no_rounding [1, 3] rs
            \<and> sum_list [1, 3 :: real] \<noteq> 0 \<longrightarrow>
          weighted_mean64 [1, 3] [PyFloat 1, PyFloat 0] = round64 (weighted_average [1, 3] rs)"
    by (simp_all add: two_features_per_feature ws)
  from b nr have c: "weighted_mean64 [1, 3] [PyFloat 1, PyFloat 0]
      = round64 (weighted_average [1, 3] [1, 0])"
    by simp
  have "round64 (weighted_average [1, 3] [1, 0]) = Fin (1 / 4)"
    by (simp add: weighted_average_def)
  with a c show ?thesis by simp
qed

lemma order_space_loop:
  "Difference_loop order_space order_a order_b [] []
   = Inr ([PyFloat 1, PyFloat 1, PyFloat 1, PyFloat 0], [2 ^ 53, 1, 1, 2 ^ 53])"
  by (simp add: order_space_def order_a_def order_b_def AddFeature_def DiscreteDistance_def
      apply_remap_def)

lemma order_space_rev_loop:
  "Difference_loop order_space_rev order_a order_b [] []
   = Inr ([PyFloat 0, PyFloat 1, PyFloat 1, PyFloat 1], [2 ^ 53, 1, 1, 2 ^ 53])"
  by (simp add: order_space_rev_def order_a_def order_b_def AddFeature_def DiscreteDistance_def
      apply_remap_def)

lemma order_space_value:
  "Difference64 order_space order_a order_b g
   = Inr (if g then WithMetrics (Fin (1 / 2)) [PyFloat 1, PyFloat 1, PyFloat 1, PyFloat 0]
          else Only (Fin (1 / 2)))"
  by (simp add: Difference64_def order_space_loop weighted_sum64_def weight_total64_def
      py_sum64_def round64_2p53 round64_2p54 round64_2p53_1)

lemma order_space_rev_value:
  "Difference64 order_space_rev order_a order_b g
   = Inr (if g then WithMetrics (Fin (4503599627370497 / 9007199254740992))
                      [PyFloat 0, PyFloat 1, PyFloat 1, PyFloat 1]
          else Only (Fin (4503599627370497 / 9007199254740992)))"
  by (simp add: Difference64_def order_space_rev_loop weighted_sum64_def weight_total64_def
      py_sum64_def round64_2p53 round64_2p54 round64_2p53_1 round64_2p53_2 round64_half_up)

text \<open>
  Claim C1 as stated fails: the scalar is not exactly \<open>(\<Sum> w\<^sub>i \<sqdot> m\<^sub>i) / (\<Sum> w\<^sub>i)\<close>. Four features
  compared by \<open>DiscreteDistance\<close>, of weights \<open>2\<^sup>5\<^sup>3\<close>, \<open>1\<close>, \<open>1\<close>, \<open>2\<^sup>5\<^sup>3\<close>, and per-feature
  distances \<open>0\<close>, \<open>1\<close>, \<open>1\<close>, \<open>1\<close>: the weight total \<open>2\<^sup>5\<^sup>4 + 2\<close> is computed as \<open>2\<^sup>5\<^sup>4\<close>, and
  \<open>Difference\<close> returns \<open>4503599627370497 / 2\<^sup>5\<^sup>3\<close> where the weighted mean is
  \<open>4503599627370497 / (2\<^sup>5\<^sup>3 + 1)\<close>.
\<close>

theorem Difference64_not_exact:
  "Difference64 order_space_rev order_a order_b False
     = Inr (Only (Fin (4503599627370497 / 9007199254740992)))
   \<and> map weight order_space_rev = [2 ^ 53, 1, 1, 2 ^ 53]
   \<and> per_feature order_space_rev order_a order_b = [PyFloat 0, PyFloat 1, PyFloat 1, PyFloat 1]
   \<and> weighted_average [2 ^ 53, 1, 1, 2 ^ 53] [0, 1, 1, 1]
       = 4503599627370497 / 9007199254740993"
  by (simp add: order_space_rev_value weighted_average_def)
    (simp add: order_space_rev_def order_a_def order_b_def AddFeature_def per_feature_def
      normalized_metric_def DiscreteDistance_def)

section \<open>A weight total of zero\<close>




section \<open>Missing feature names\<close>

lemma Hellinger_loop64_short:
  "length bb < length aa \<Longrightarrow> Hellinger_loop64 aa bb bc = Inl IndexError"
  by (induction aa bb bc rule: Hellinger_loop64.induct) simp_all




section \<open>Registration order\<close>

lemma computable_mset:
  assumes "mset fs2 = mset fs1" and "computable fs1 aa bb"
  shows "computable fs2 aa bb"
  using assms mset_eq_setD [OF assms(1)] by (simp add: computable_def list_all_iff)

lemma per_feature_Fin:
  assumes "map to_np (per_feature fs aa bb) = map Fin rs"
  shows "rs = map (\<lambda>ff. fin_val (to_np (projr
           (normalized_metric ff (the (aa (name ff))) (the (bb (name ff))))))) fs"
  using assms
proof (induction fs arbitrary: rs)
  case Nil
  then show ?case by (simp add: per_feature_def)
next
  case (Cons ff fs)
  then obtain r rs' where rs: "rs = r # rs'" by (cases rs) (auto simp: per_feature_def)
  with Cons.prems have h: "to_np (projr (normalized_metric ff (the (aa (name ff)))
      (the (bb (name ff))))) = Fin r"
    and t: "map to_np (per_feature fs aa bb) = map Fin rs'"
    by (simp_all add: per_feature_def)
  from Cons.IH [OF t] h rs show ?case by simp
qed

lemma weighted_average_features:
  "weighted_average (map weight fs) (map r fs)
   = sum_list (map (\<lambda>ff. weight ff * r ff) fs) / sum_list (map weight fs)"
proof -
  have "zip (map weight fs) (map r fs) = map (\<lambda>ff. (weight ff, r ff)) fs"
    by (induction fs) simp_all
  then show ?thesis by (simp add: weighted_average_def comp_def)
qed

lemma weighted_average_mset:
  assumes "mset fs2 = mset fs1"
  shows "weighted_average (map weight fs2) (map r fs2)
         = weighted_average (map weight fs1) (map r fs1)"
proof -
  have "sum_list (map f fs2) = sum_list (map f fs1)" for f :: "_ \<Rightarrow> real"
    using assms by (metis mset_map sum_mset_sum_list)
  then show ?thesis by (simp add: weighted_average_features)
qed

text \<open>
  Claim C8, with the arithmetic of the source. Two feature spaces that register the
  same features in different orders (the second registry a permutation of the first),
  applied to elements that contain every name: both calls of \<open>Difference\<close> return, and the
  two lists of per-feature distances hold the same numbers in a different order. The two
  scalars are equal when neither computation rounds a product or a partial sum.
\<close>

theorem Difference64_order:
  assumes "mset features2 = mset features1" and "features1 \<noteq> []"
    and "computable features1 aa bb"
  shows "\<exists>r1 r2. Difference64 features1 aa bb g = Inr r1 \<and> Difference64 features2 aa bb g = Inr r2
           \<and> mset (metrics_of r2) = mset (metrics_of r1)
           \<and> (\<forall>rs1 rs2. map to_np (per_feature features1 aa bb) = map Fin rs1
                 \<and> map to_np (per_feature features2 aa bb) = map Fin rs2
                 \<and> no_rounding (map weight features1) rs1
                 \<and> no_rounding (map weight features2) rs2
                 \<and> sum_list (map weight features1) \<noteq> 0 \<longrightarrow>
               scalar_of r2 = scalar_of r1)"
proof -
  have ne: "features2 \<noteq> []" using assms(1,2) by auto
  have c2: "computable features2 aa bb" by (rule computable_mset [OF assms(1,3)])
  have pm: "mset (per_feature features2 aa bb) = mset (per_feature features1 aa bb)"
    by (simp add: per_feature_def assms(1))
  have sw: "sum_list (map weight features2) = sum_list (map weight features1)"
    using assms(1) by (metis mset_map sum_mset_sum_list)
  have eq: "weighted_mean64 (map weight features2) (per_feature features2 aa bb)
          = weighted_mean64 (map weight features1) (per_feature features1 aa bb)"
    if h1: "map to_np (per_feature features1 aa bb) = map Fin rs1"
      and h2: "map to_np (per_feature features2 aa bb) = map Fin rs2"
      and n1: "no_rounding (map weight features1) rs1"
      and n2: "no_rounding (map weight features2) rs2"
      and nz: "sum_list (map weight features1) \<noteq> 0" for rs1 rs2
  proof -
    from nz sw have nz2: "sum_list (map weight features2) \<noteq> 0" by simp
    have "weighted_average (map weight features2) rs2
          = weighted_average (map weight features1) rs1"
      unfolding per_feature_Fin [OF h1] per_feature_Fin [OF h2]
      by (rule weighted_average_mset [OF assms(1)])
    then show ?thesis
      by (simp add: weighted_mean64_exact [OF h1 n1 nz] weighted_mean64_exact [OF h2 n2 nz2])
  qed
  have sc: "\<forall>rs1 rs2. map to_np (per_feature features1 aa bb) = map Fin rs1
                 \<and> map to_np (per_feature features2 aa bb) = map Fin rs2
                 \<and> no_rounding (map weight features1) rs1
                 \<and> no_rounding (map weight features2) rs2
                 \<and> sum_list (map weight features1) \<noteq> 0 \<longrightarrow>
               weighted_mean64 (map weight features2) (per_feature features2 aa bb)
               = weighted_mean64 (map weight features1) (per_feature features1 aa bb)"
    using eq by blast
  show ?thesis
  proof (cases g)
    case True
    have "scalar_of (WithMetrics x ms) = x" for x ms by simp
    with sc pm show ?thesis
      unfolding Difference64_computable [OF assms(2,3)] Difference64_computable [OF ne c2]
      by (simp only: True if_True sum.inject metrics_of.simps scalar_of.simps
          simp_thms ex_simps) ((intro exI conjI; (rule refl)?; assumption?)?)
  next
    case False
    with sc pm show ?thesis
      unfolding Difference64_computable [OF assms(2,3)] Difference64_computable [OF ne c2]
      by (simp only: False if_False sum.inject metrics_of.simps scalar_of.simps
          simp_thms ex_simps) ((intro exI conjI; (rule refl)?; assumption?)?)
  qed
qed

lemma two_features_swapped_per_feature:
  "per_feature two_features_swapped [''color'' \<mapsto> ''red'', ''shape'' \<mapsto> ''square'']
     [''color'' \<mapsto> ''blue'', ''shape'' \<mapsto> ''square''] = [PyFloat 0, PyFloat 1]"
  by (simp add: per_feature_def two_features_swapped_def AddFeature_def normalized_metric_def
      DiscreteDistance_def)

theorem Difference64_order_witness:
  "\<exists>r1 r2. Difference64 two_features [''color'' \<mapsto> ''red'', ''shape'' \<mapsto> ''square'']
              [''color'' \<mapsto> ''blue'', ''shape'' \<mapsto> ''square''] True = Inr r1
         \<and> Difference64 two_features_swapped [''color'' \<mapsto> ''red'', ''shape'' \<mapsto> ''square'']
              [''color'' \<mapsto> ''blue'', ''shape'' \<mapsto> ''square''] True = Inr r2
         \<and> mset (metrics_of r2) = mset (metrics_of r1) \<and> scalar_of r2 = scalar_of r1"
proof -
  let ?a = "[''color'' \<mapsto> ''red'', ''shape'' \<mapsto> ''square'']"
  let ?b = "[''color'' \<mapsto> ''blue'', ''shape'' \<mapsto> ''square'']"
  have pm: "mset two_features_swapped = mset two_features"
    by (simp add: two_features_def two_features_swapped_def AddFeature_def add_mset_commute)
  have ne: "two_features \<noteq> []" by (simp add: two_features_def AddFeature_def)
  have ws: "map weight two_features = [1, 3]" "map weight two_features_swapped = [3, 1]"
    by (simp_all add: two_features_def two_features_swapped_def AddFeature_def)
  have d: "is_double 3" "is_double 4" using is_double_int [of 3] is_double_int [of 4] by simp_all
  have nr: "no_rounding [1, 3] [1, 0]" "no_rounding [3, 1] [0, 1]"
    by (simp_all add: no_rounding_def d)
  from Difference64_order [OF pm ne two_features_computable, of True]
  obtain r1 r2 where r: "Difference64 two_features ?a ?b True = Inr r1"
      "Difference64 two_features_swapped ?a ?b True = Inr r2"
      "mset (metrics_of r2) = mset (metrics_of r1)"
    and imp: "\<forall>rs1 rs2. map to_np [PyFloat 1, PyFloat 0] = map Fin rs1
                 \<and> map to_np [PyFloat 0, PyFloat 1] = map Fin rs2
                 \<and> no_rounding [1, 3] rs1 \<and> no_rounding [3, 1] rs2
                 \<and> sum_list [1, 3 :: real] \<noteq> 0 \<longrightarrow> scalar_of r2 = scalar_of r1"
    unfolding two_features_per_feature two_features_swapped_per_feature ws by blast
  from imp [rule_format, of "[1, 0]" "[0, 1]"] nr have "scalar_of r2 = scalar_of r1"
    by simp
  with r show ?thesis by blast
qed

text \<open>
  Claim C8 as stated fails: the same four distinctly named features, registered as
  \<open>f1, f2, f3, f4\<close> and as \<open>f4, f3, f2, f1\<close>, and the same two elements give the scalars
  \<open>0.5\<close> and \<open>0.5 + 2\<^sup>-\<^sup>5\<^sup>3\<close>. Adding \<open>1\<close> to \<open>2\<^sup>5\<^sup>3\<close> twice leaves \<open>2\<^sup>5\<^sup>3\<close>; adding \<open>2\<^sup>5\<^sup>3\<close> to \<open>2\<close>
  gives \<open>2\<^sup>5\<^sup>3 + 2\<close>.
\<close>

theorem Difference64_order_dependent:
  "mset order_space_rev = mset order_space
   \<and> distinct (map name order_space)
   \<and> Difference64 order_space order_a order_b True
       = Inr (WithMetrics (Fin (1 / 2)) [PyFloat 1, PyFloat 1, PyFloat 1, PyFloat 0])
   \<and> Difference64 order_space_rev order_a order_b True
       = Inr (WithMetrics (Fin (4503599627370497 / 9007199254740992))
                [PyFloat 0, PyFloat 1, PyFloat 1, PyFloat 1])"
  by (simp add: order_space_value order_space_rev_value)
    (simp add: order_space_def order_space_rev_def AddFeature_def)

section \<open>Duplicate feature names\<close>

lemma Element_append:
  "Element (fs @ [f]) = (Element fs)(name f \<mapsto> proto f)"
  by (simp add: Element_def)

lemma Element_map_of:
  "Element fs = map_of (rev (map (\<lambda>f. (name f, proto f)) fs))"
  by (induction fs rule: rev_induct) (simp_all add: Element_append Element_def)

lemma Element_last_wins:
  assumes "\<forall>g \<in> set zs. name g \<noteq> name f"
  shows "Element (ys @ f # zs) (name f) = Some (proto f)"
  using assms
proof (induction zs rule: rev_induct)
  case Nil
  then show ?case by (simp add: Element_append)
next
  case (snoc z zs)
  then have "Element ((ys @ f # zs) @ [z]) (name f) = Some (proto f)"
    unfolding Element_append by auto
  then show ?case by simp
qed

lemma computable_member:
  assumes "computable fs aa bb" and "ff \<in> set fs"
  shows "\<exists>x y m. aa (name ff) = Some x \<and> bb (name ff) = Some y
           \<and> normalized_metric ff x y = Inr m"
proof -
  from assms have c: "case (aa (name ff), bb (name ff)) of
      (Some x, Some y) \<Rightarrow> succeeds (normalized_metric ff x y) | _ \<Rightarrow> False"
    by (simp add: computable_def list_all_iff)
  then obtain x y where xy: "aa (name ff) = Some x" "bb (name ff) = Some y"
    by (cases "aa (name ff)"; cases "bb (name ff)") simp_all
  with c have "succeeds (normalized_metric ff x y)" by simp
  then obtain m where "normalized_metric ff x y = Inr m"
    by (cases "normalized_metric ff x y") simp_all
  with xy show ?thesis by blast
qed

text \<open>
  Claim C9. When two entries of the registry share a name, \<open>Element\<close> maps the name to
  the prototype of the last one registered, and \<open>Difference\<close> still visits every entry:
  its list of metrics has one number per entry, the \<open>i\<close>-th computed from the \<open>i\<close>-th
  entry.
\<close>

theorem Element_duplicate_name:
  assumes "name f1 = name f2" and "\<forall>g \<in> set zs. name g \<noteq> name f2"
    and "features = xs @ f1 # ys @ f2 # zs" and "computable features aa bb"
  shows "Element features (name f1) = Some (proto f2)
         \<and> Difference features aa bb True
             = Inr (WithMetrics (weighted_mean_spec (map weight features) (per_feature features aa bb))
                      (per_feature features aa bb))
         \<and> length (per_feature features aa bb) = length features
         \<and> (\<forall>i < length features. normalized_metric (features ! i)
               (the (aa (name (features ! i)))) (the (bb (name (features ! i))))
                = Inr (per_feature features aa bb ! i))"
proof -
  have "Element ((xs @ f1 # ys) @ f2 # zs) (name f2) = Some (proto f2)"
    by (rule Element_last_wins [OF assms(2)])
  then have e: "Element features (name f1) = Some (proto f2)"
    by (simp add: assms(1,3))
  have ne: "features \<noteq> []" by (simp add: assms(3))
  have nth: "normalized_metric (features ! i)
               (the (aa (name (features ! i)))) (the (bb (name (features ! i))))
              = Inr (per_feature features aa bb ! i)" if "i < length features" for i
  proof -
    from that have "features ! i \<in> set features" by simp
    from computable_member [OF assms(4) this] obtain x y m where
      "aa (name (features ! i)) = Some x" "bb (name (features ! i)) = Some y"
      "normalized_metric (features ! i) x y = Inr m"
      by blast
    then show ?thesis using that by (simp add: per_feature_def)
  qed
  show ?thesis
    using e nth by (simp add: Difference_computable [OF ne assms(4)] per_feature_def)
qed

theorem Element_duplicate_name_witness:
  "Element [\<lparr>name = ''age'', proto = Scalar 0, metric = ManhattanDistance, remap = None,
              range' = 1, weight = 1\<rparr>,
            \<lparr>name = ''age'', proto = Scalar 7, metric = ManhattanDistance,
              remap = Some LinearRemap, range' = 100, weight = 3\<rparr>] ''age'' = Some (Scalar 7)
   \<and> Difference [\<lparr>name = ''age'', proto = Scalar 0, metric = ManhattanDistance, remap = None,
              range' = 1, weight = 1\<rparr>,
            \<lparr>name = ''age'', proto = Scalar 7, metric = ManhattanDistance,
              remap = Some LinearRemap, range' = 100, weight = 3\<rparr>]
        [''age'' \<mapsto> Scalar 30] [''age'' \<mapsto> Scalar 80] True
      = Inr (WithMetrics (Fin (103 / 8)) [NpFloat (Fin 50), NpFloat (Fin (1 / 2))])"
proof -
  let ?f1 = "\<lparr>name = ''age'', proto = Scalar 0, metric = ManhattanDistance, remap = None,
              range' = 1, weight = 1\<rparr>"
  let ?f2 = "\<lparr>name = ''age'', proto = Scalar 7, metric = ManhattanDistance,
              remap = Some LinearRemap, range' = 100, weight = 3\<rparr>"
  have h1: "name ?f1 = name ?f2" by simp
  have h2: "\<forall>g \<in> set []. name g \<noteq> name ?f2" by simp
  have h3: "[?f1, ?f2] = [] @ ?f1 # [] @ ?f2 # []" by simp
  have h4: "computable [?f1, ?f2] [''age'' \<mapsto> Scalar 30] [''age'' \<mapsto> Scalar 80]"
    by (simp add: computable_def normalized_metric_def ManhattanDistance_def LinearRemap_def)
  have pf: "per_feature [?f1, ?f2] [''age'' \<mapsto> Scalar 30] [''age'' \<mapsto> Scalar 80]
            = [NpFloat (Fin 50), NpFloat (Fin (1 / 2))]"
    by (simp add: per_feature_def normalized_metric_def ManhattanDistance_def LinearRemap_def)
  from Element_duplicate_name [OF h1 h2 h3 h4]
  have "Element [?f1, ?f2] (name ?f1) = Some (proto ?f2)
        \<and> Difference [?f1, ?f2] [''age'' \<mapsto> Scalar 30] [''age'' \<mapsto> Scalar 80] True
          = Inr (WithMetrics (weighted_mean_spec (map weight [?f1, ?f2])
                   (per_feature [?f1, ?f2] [''age'' \<mapsto> Scalar 30] [''age'' \<mapsto> Scalar 80]))
                 (per_feature [?f1, ?f2] [''age'' \<mapsto> Scalar 30] [''age'' \<mapsto> Scalar 80]))"
    by blast
  then show ?thesis
    by (simp add: pf weighted_mean_spec_def np_sum_list_def)
qed

section \<open>The remapping functions are bounded and monotone\<close>

lemma minimum_round64:
  assumes "0 \<le> z"
  shows "np_minimum (round64 z) (Fin 1) = Fin (min (nearest64 z) 1)"
proof (cases "nearest64 z < 2 ^ 1024")
  case True
  then show ?thesis by (simp add: round64_nonneg [OF assms])
next
  case False
  then have "(1::real) \<le> nearest64 z"
    by (intro order_trans [of 1 "2 ^ 1024" "nearest64 z"]) simp_all
  with False show ?thesis by (simp add: round64_nonneg [OF assms] min_def)
qed

lemma truediv64_Fin:
  assumes "to_np d = Fin x" and "r \<noteq> 0"
  shows "truediv64 d r = Inr (round64 (x / r))"
  using assms by (cases d) simp_all

lemma to_np_neg: "to_np (neg d) = np_neg (to_np d)"
  by (cases d) simp_all

lemma LinearRemap64_value:
  assumes "0 < r" and "to_np d = Fin x" and "0 \<le> x"
  shows "LinearRemap64 d r = Inr (NpFloat (Fin (min (nearest64 (x / r)) 1)))"
proof -
  have "0 \<le> x / r" using assms by simp
  from minimum_round64 [OF this] assms show ?thesis
    by (simp add: LinearRemap64_def truediv64_Fin)
qed

lemma exp64_val_bounds:
  assumes "z \<le> 0"
  shows "0 \<le> exp64_val z" and "exp64_val z \<le> 1"
proof -
  have "nearest64 z \<le> 0" by (rule nearest64_nonpos [OF assms])
  then have "exp (nearest64 z) \<le> 1" by simp
  then have "nearest64 (exp (nearest64 z)) \<le> 1" by (rule nearest64_le_1)
  then show "exp64_val z \<le> 1" by (simp add: exp64_val_def)
  have "0 \<le> nearest64 (exp (nearest64 z))" by (rule nearest64_nonneg) simp
  then show "0 \<le> exp64_val z" by (simp add: exp64_val_def)
qed

lemma exp64_val_mono:
  assumes "z \<le> z'"
  shows "exp64_val z \<le> exp64_val z'"
proof (cases "nearest64 z \<le> - (2 ^ 1024)")
  case True
  have "0 \<le> nearest64 (exp (nearest64 z'))" by (rule nearest64_nonneg) simp
  with True show ?thesis by (simp add: exp64_val_def)
next
  case False
  have n: "nearest64 z \<le> nearest64 z'" by (rule nearest64_mono [OF assms])
  with False have F': "\<not> nearest64 z' \<le> - (2 ^ 1024)" by linarith
  from n have "exp (nearest64 z) \<le> exp (nearest64 z')" by simp
  then have "nearest64 (exp (nearest64 z)) \<le> nearest64 (exp (nearest64 z'))"
    by (rule nearest64_mono)
  with False F' show ?thesis by (simp add: exp64_val_def)
qed

lemma exp64_round64:
  assumes "z \<le> 0"
  shows "exp64 (round64 z) = Fin (exp64_val z)"
proof (cases "nearest64 z \<le> - (2 ^ 1024)")
  case True
  then show ?thesis by (simp add: round64_nonpos [OF assms] exp64_val_def)
next
  case False
  have "nearest64 z \<le> 0" by (rule nearest64_nonpos [OF assms])
  then have "exp (nearest64 z) \<le> 1" by simp
  then have "round64 (exp (nearest64 z)) = Fin (nearest64 (exp (nearest64 z)))"
    by (intro round64_unit) simp_all
  with False show ?thesis by (simp add: round64_nonpos [OF assms] exp64_val_def)
qed

lemma ExponentialRemap64_value:
  assumes "0 < r" and "to_np d = Fin x" and "0 \<le> x"
  shows "ExponentialRemap64 d r = Inr (NpFloat (Fin (nearest64 (1 - exp64_val (- x / r)))))"
proof -
  have z: "- x / r \<le> 0" using assms by (simp add: divide_nonpos_pos)
  have n: "to_np (neg d) = Fin (- x)" by (simp add: to_np_neg assms)
  have t: "truediv64 (neg d) r = Inr (round64 (- x / r))"
    using truediv64_Fin [OF n, of r] assms(1) by simp
  have "round64 (1 - exp64_val (- x / r)) = Fin (nearest64 (1 - exp64_val (- x / r)))"
    using exp64_val_bounds [OF z] by (intro round64_unit) simp_all
  then show ?thesis
    unfolding ExponentialRemap64_def t sum.case exp64_round64 [OF z] sub64_def np_neg.simps
      add64.simps
    by simp
qed

lemma remap64_PInf:
  assumes "0 < r"
  shows "LinearRemap64 (NpFloat PInf) r = Inr (NpFloat (Fin 1))"
    and "ExponentialRemap64 (NpFloat PInf) r = Inr (NpFloat (Fin 1))"
  using assms by (simp_all add: LinearRemap64_def ExponentialRemap64_def sub64_def)



lemma exp_50: "exp (- 50 :: real) \<le> 1 / 2 ^ 54"
proof -
  have "(5 / 2 :: real) \<le> exp 1"
    using exp_lower_Taylor_quadratic [of "1::real"] by simp
  then have "(5 / 2 :: real) ^ 50 \<le> exp 1 ^ 50" by (intro power_mono) simp_all
  also have "exp (1::real) ^ 50 = exp 50"
    using exp_of_nat_mult [of 50 "1::real"] by simp
  finally have "(5 / 2 :: real) ^ 50 \<le> exp 50" .
  moreover have "(2 :: real) ^ 54 \<le> (5 / 2) ^ 50" by (simp add: power_divide)
  ultimately have "(2 :: real) ^ 54 \<le> exp 50" by (rule order_trans [rotated])
  then have "1 / exp (50::real) \<le> 1 / 2 ^ 54"
    by (intro divide_left_mono) simp_all
  then show ?thesis by (simp add: exp_minus inverse_eq_divide)
qed

lemma sub64_one_small:
  assumes "0 \<le> t" and "t \<le> 1 / 2 ^ 54"
  shows "sub64 (Fin 1) (Fin t) = Fin 1"
  using round64_near_1 [of "1 - t"] assms by (simp add: sub64_def)

lemma round64_minus_50: "round64 (- 50) = Fin (- 50)"
  using round64_of_int [of "- 50"] by simp


section \<open>The Hellinger distance\<close>

lemma sqrt_sum_zip_le:
  assumes "\<forall>p \<in> set ps. 0 \<le> p" and "\<forall>q \<in> set qs. 0 \<le> q"
  shows "(\<Sum>(p, q) \<leftarrow> zip ps qs. sqrt (p * q)) \<le> (sum_list ps + sum_list qs) / 2"
  using assms
proof (induction ps qs rule: list_induct2')
  case 1
  then show ?case by simp
next
  case (2 p ps)
  then show ?case by (simp add: sum_list_nonneg add_nonneg_nonneg)
next
  case (3 q qs)
  then show ?case by (simp add: sum_list_nonneg add_nonneg_nonneg)
next
  case (4 p ps q qs)
  then have "(\<Sum>(p, q) \<leftarrow> zip ps qs. sqrt (p * q)) \<le> (sum_list ps + sum_list qs) / 2"
    by simp
  moreover have "sqrt (p * q) \<le> (p + q) / 2"
    by (rule arith_geo_mean_sqrt) (use 4 in auto)
  ultimately show ?case by (simp add: field_simps)
qed

lemma sum_list_scaled: "sum_list (map (\<lambda>x. x / c) a) = sum_list a / (c::real)"
  by (induction a) (simp_all add: add_divide_distrib)

lemma Bhattacharyya_zip:
  "Bhattacharyya a b
   = (\<Sum>(p, q) \<leftarrow> zip (map (\<lambda>x. x / sum_list a) a) (map (\<lambda>y. y / sum_list b) b). sqrt (p * q))"
  by (simp add: Bhattacharyya_def zip_map_map case_prod_unfold comp_def)

lemma Bhattacharyya_le_1:
  assumes "\<forall>x \<in> set a. 0 \<le> x" and "\<forall>y \<in> set b. 0 \<le> y"
    and "0 < sum_list a" and "0 < sum_list b"
  shows "Bhattacharyya a b \<le> 1"
proof -
  have "Bhattacharyya a b
        \<le> (sum_list (map (\<lambda>x. x / sum_list a) a) + sum_list (map (\<lambda>y. y / sum_list b) b)) / 2"
    unfolding Bhattacharyya_zip
    by (rule sqrt_sum_zip_le) (use assms in auto)
  also have "\<dots> = 1" using assms(3,4) by (simp add: sum_list_scaled)
  finally show ?thesis .
qed

lemma foldl_add64_PInf: "foldl add64 PInf (map Fin xs) = PInf"
  by (induction xs) simp_all

lemma foldl_add64_nonneg:
  assumes "is_double s" and "0 \<le> s" and "\<forall>x \<in> set xs. is_double x \<and> 0 \<le> x"
  shows "foldl add64 (Fin s) (map Fin xs) = PInf
         \<or> (\<exists>t. foldl add64 (Fin s) (map Fin xs) = Fin t \<and> s \<le> t \<and> (\<forall>x \<in> set xs. x \<le> t))"
  using assms
proof (induction xs arbitrary: s)
  case Nil
  then show ?case by simp
next
  case (Cons x xs)
  then have dx: "is_double x" and x0: "0 \<le> x" by simp_all
  have nn: "0 \<le> s + x" using Cons.prems(2) x0 by simp
  show ?case
  proof (cases "nearest64 (s + x) < 2 ^ 1024")
    case False
    then show ?thesis by (simp add: round64_nonneg [OF nn] foldl_add64_PInf)
  next
    case True
    let ?t = "nearest64 (s + x)"
    have r: "round64 (s + x) = Fin ?t" using True by (simp add: round64_nonneg [OF nn])
    have dt: "is_double ?t" by (rule round64_is_double [OF r])
    have st: "s \<le> ?t"
      using nearest64_mono [of s "s + x"] x0 nearest64_double [OF Cons.prems(1)] by simp
    have xt: "x \<le> ?t"
      using nearest64_mono [of x "s + x"] Cons.prems(2) nearest64_double [OF dx] by simp
    have t0: "0 \<le> ?t" using st Cons.prems(2) by simp
    from Cons.IH [OF dt t0] Cons.prems(3)
    have "foldl add64 (Fin ?t) (map Fin xs) = PInf
         \<or> (\<exists>t. foldl add64 (Fin ?t) (map Fin xs) = Fin t \<and> ?t \<le> t \<and> (\<forall>x \<in> set xs. x \<le> t))"
      by simp
    then show ?thesis
    proof
      assume "foldl add64 (Fin ?t) (map Fin xs) = PInf"
      then show ?thesis by (simp add: r)
    next
      assume "\<exists>t. foldl add64 (Fin ?t) (map Fin xs) = Fin t \<and> ?t \<le> t \<and> (\<forall>x \<in> set xs. x \<le> t)"
      then obtain t where t: "foldl add64 (Fin ?t) (map Fin xs) = Fin t" "?t \<le> t"
        "\<forall>x \<in> set xs. x \<le> t" by blast
      from t st xt have "s \<le> t" "x \<le> t" by simp_all
      with t show ?thesis by (simp add: r)
    qed
  qed
qed

lemma normalize64_unit:
  assumes "\<forall>x \<in> set a. is_double x \<and> 0 \<le> x" and "0 < sum_list a"
  shows "unit_list (normalize64 a)"
proof -
  from assms(2) have "\<not> (\<forall>x \<in> set a. x \<le> 0)"
    using sum_list_nonpos [of a] by fastforce
  then obtain z where z: "z \<in> set a" "0 < z" by force
  from foldl_add64_nonneg [OF is_double_0 order_refl assms(1)]
  have "sum64 a = PInf \<or> (\<exists>t. sum64 a = Fin t \<and> (\<forall>x \<in> set a. x \<le> t))"
    by (auto simp: sum64_def)
  then show ?thesis
  proof
    assume "sum64 a = PInf"
    then show ?thesis by (simp add: unit_list_def normalize64_def)
  next
    assume "\<exists>t. sum64 a = Fin t \<and> (\<forall>x \<in> set a. x \<le> t)"
    then obtain t where t: "sum64 a = Fin t" "\<forall>x \<in> set a. x \<le> t" by blast
    with z have tp: "0 < t" by force
    have "\<exists>u. div64 (Fin x) (Fin t) = Fin u \<and> 0 \<le> u \<and> u \<le> 1" if "x \<in> set a" for x
    proof -
      from that assms(1) t(2) have "0 \<le> x" "x \<le> t" by simp_all
      with tp have "0 \<le> x / t" "x / t \<le> 1" by simp_all
      from round64_between [OF is_double_0 is_double_1 this] tp show ?thesis by simp
    qed
    with tp show ?thesis by (simp add: unit_list_def normalize64_def t(1))
  qed
qed

lemma Hellinger_term_unit:
  assumes "0 \<le> u" "u \<le> 1" "0 \<le> v" "v \<le> 1"
  shows "\<exists>s. sqrt64 (mul64 (Fin u) (Fin v)) = Fin s \<and> 0 \<le> s \<and> s \<le> 1"
proof -
  have "0 \<le> u * v" "u * v \<le> 1" using assms by (simp_all add: mult_le_one)
  from round64_between [OF is_double_0 is_double_1 this]
  obtain p where p: "round64 (u * v) = Fin p" "0 \<le> p" "p \<le> 1" by blast
  then have "0 \<le> sqrt p" "sqrt p \<le> 1" by simp_all
  from round64_between [OF is_double_0 is_double_1 this] p show ?thesis by simp
qed

lemma Hellinger_loop64_bounded:
  assumes "unit_list xs" and "unit_list ys" and "length xs \<le> length ys"
    and "0 \<le> c" and "c \<le> real k" and "k + length xs < 2 ^ 53" and "is_double c"
  shows "\<exists>bc. Hellinger_loop64 xs ys (Fin c) = Inr (Fin bc) \<and> 0 \<le> bc
           \<and> bc \<le> real (k + length xs) \<and> is_double bc"
  using assms
proof (induction xs arbitrary: ys c k)
  case Nil
  then show ?case by simp
next
  case (Cons x xs)
  from Cons.prems(3) obtain y ys' where ys: "ys = y # ys'" by (cases ys) auto
  from Cons.prems(1) obtain u where u: "x = Fin u" "0 \<le> u" "u \<le> 1" and xs: "unit_list xs"
    by (auto simp: unit_list_def)
  from Cons.prems(2) ys obtain v where v: "y = Fin v" "0 \<le> v" "v \<le> 1" and ys': "unit_list ys'"
    by (auto simp: unit_list_def)
  from Hellinger_term_unit [OF u(2,3) v(2,3)]
  obtain s where s: "sqrt64 (mul64 (Fin u) (Fin v)) = Fin s" "0 \<le> s" "s \<le> 1" by blast
  have k1: "Suc k < 2 ^ 53" using Cons.prems(6) by simp
  have "0 \<le> c + s" "c + s \<le> real (Suc k)" using Cons.prems(4,5) s by simp_all
  from round64_between [OF is_double_0 is_double_nat [OF k1] this]
  obtain c' where c': "round64 (c + s) = Fin c'" "0 \<le> c'" "c' \<le> real (Suc k)" by blast
  have len: "length xs \<le> length ys'" using Cons.prems(3) ys by simp
  have kk: "Suc k + length xs < 2 ^ 53" using Cons.prems(6) by simp
  have dc: "is_double c'" by (rule round64_is_double [OF c'(1)])
  from Cons.IH [OF xs ys' len c'(2,3) kk dc]
  show ?case by (simp add: ys u(1) v(1) s(1) c'(1) del: sqrt64.simps mul64.simps)
qed

lemma sqrt64_sub64_le_1:
  assumes "0 \<le> bc" and "bc \<le> 1"
  shows "\<exists>y. sqrt64 (sub64 (Fin 1) (Fin bc)) = Fin y \<and> 0 \<le> y \<and> y \<le> 1"
proof -
  have "0 \<le> 1 - bc" "1 - bc \<le> 1" using assms by simp_all
  from round64_between [OF is_double_0 is_double_1 this]
  obtain z where z: "round64 (1 - bc) = Fin z" "0 \<le> z" "z \<le> 1" by blast
  then have "0 \<le> sqrt z" "sqrt z \<le> 1" by simp_all
  from round64_between [OF is_double_0 is_double_1 this] z show ?thesis
    by (simp add: sub64_def)
qed

lemma sqrt64_sub64_above_1:
  assumes "is_double bc" and "1 < bc"
  shows "sqrt64 (sub64 (Fin 1) (Fin bc)) = NaN"
proof -
  have d: "is_double (- (1 / 2 ^ 52))"
    using is_double_uminus [OF is_double_dyadic [of 1 52]] by simp
  have le: "1 - bc \<le> - (1 / 2 ^ 52)" using double_above_1 [OF assms] by simp
  have "nearest64 (1 - bc) \<le> nearest64 (- (1 / 2 ^ 52))" by (rule nearest64_mono [OF le])
  also have "\<dots> = - (1 / 2 ^ 52)" by (rule nearest64_double [OF d])
  finally have neg: "nearest64 (1 - bc) < 0" by simp
  from round64_cases [of "1 - bc"] neg show ?thesis
    by (auto simp: sub64_def)
qed


lemma quotient_4_13: "div64 (Fin 4) (Fin 13) = Fin (1385722962267845 / 4503599627370496)"
  using round64_eval_small [of 2 "4 / 13" 5542891849071380]
  by (simp add: round_even_def)

lemma quotient_3_13: "div64 (Fin 3) (Fin 13) = Fin (4157168886803535 / 18014398509481984)"
  using round64_eval_small [of 3 "3 / 13" 8314337773607070]
  by (simp add: round_even_def)

lemma product_4_13:
  "mul64 (Fin (1385722962267845 / 4503599627370496)) (Fin (1385722962267845 / 4503599627370496))
   = Fin (3411010368659311 / 36028797018963968)"
  using round64_eval_small [of 4
      "1385722962267845 / 4503599627370496 * (1385722962267845 / 4503599627370496)"
      6822020737318622]
  by (simp add: round_even_def)

lemma product_3_13:
  "mul64 (Fin (4157168886803535 / 18014398509481984)) (Fin (4157168886803535 / 18014398509481984))
   = Fin (3837386664741725 / 72057594037927936)"
  using round64_eval_small [of 5
      "4157168886803535 / 18014398509481984 * (4157168886803535 / 18014398509481984)"
      7674773329483450]
  by (simp add: round_even_def)

lemma root_4_13:
  "sqrt64 (Fin (3411010368659311 / 36028797018963968))
   = Fin (1385722962267845 / 4503599627370496)"
  using round64_sqrt_small [of 2 "3411010368659311 / 36028797018963968" 5542891849071380]
  by (simp add: power2_eq_square)

lemma root_3_13:
  "sqrt64 (Fin (3837386664741725 / 72057594037927936))
   = Fin (4157168886803535 / 18014398509481984)"
  using round64_sqrt_small [of 3 "3837386664741725 / 72057594037927936" 8314337773607070]
  by (simp add: power2_eq_square)

lemma coefficient_step_1:
  "add64 (Fin 0) (Fin (1385722962267845 / 4503599627370496))
   = Fin (1385722962267845 / 4503599627370496)"
  using round64_double [OF is_double_dyadic [of 1385722962267845 52]] by simp

lemma coefficient_step_2:
  "add64 (Fin (1385722962267845 / 4503599627370496)) (Fin (4157168886803535 / 18014398509481984))
   = Fin (2425015183968729 / 4503599627370496)"
  using round64_eval_small [of 1
      "1385722962267845 / 4503599627370496 + 4157168886803535 / 18014398509481984"
      4850030367937458]
  by (simp add: round_even_def)

lemma coefficient_step_3:
  "add64 (Fin (2425015183968729 / 4503599627370496)) (Fin (4157168886803535 / 18014398509481984))
   = Fin (3464307405669613 / 4503599627370496)"
  using round64_eval_small [of 1
      "2425015183968729 / 4503599627370496 + 4157168886803535 / 18014398509481984"
      6928614811339226]
  by (simp add: round_even_def)

lemma coefficient_step_4:
  "add64 (Fin (3464307405669613 / 4503599627370496)) (Fin (4157168886803535 / 18014398509481984))
   = Fin (4503599627370497 / 4503599627370496)"
  using round64_eval_small [of 0
      "3464307405669613 / 4503599627370496 + 4157168886803535 / 18014398509481984"
      4503599627370497]
  by (simp add: round_even_def)

lemma normalize64_4333:
  "normalize64 [4, 3, 3, 3]
   = [Fin (1385722962267845 / 4503599627370496), Fin (4157168886803535 / 18014398509481984),
      Fin (4157168886803535 / 18014398509481984), Fin (4157168886803535 / 18014398509481984)]"
proof -
  have "sum64 [4, 3, 3, 3] = Fin 13" by (simp add: sum64_def)
  then show ?thesis
    unfolding normalize64_def by (simp only: list.map quotient_4_13 quotient_3_13)
qed

lemma Hellinger_loop64_4333:
  "Hellinger_loop64 (normalize64 [4, 3, 3, 3]) (normalize64 [4, 3, 3, 3]) (Fin 0)
   = Inr (Fin (4503599627370497 / 4503599627370496))"
  unfolding normalize64_4333
  by (simp only: Hellinger_loop64.simps product_4_13 product_3_13 root_4_13 root_3_13
      coefficient_step_1 coefficient_step_2 coefficient_step_3 coefficient_step_4)



section \<open>Elements share the prototypes\<close>

lemma Element_last_registered:
  "ff \<in> set fs \<Longrightarrow>
   Element fs (name ff) = Some (proto (last (filter (\<lambda>g. name g = name ff) fs)))"
proof (induction fs rule: rev_induct)
  case Nil
  then show ?case by simp
next
  case (snoc z zs)
  show ?case
  proof (cases "name z = name ff")
    case True
    then show ?thesis by (simp add: Element_append)
  next
    case False
    with snoc.prems have "ff \<in> set zs" by auto
    with snoc.IH False show ?thesis by (simp add: Element_append)
  qed
qed

lemma Element_distinct:
  assumes "distinct (map name fs)" and "ff \<in> set fs"
  shows "Element fs (name ff) = Some (proto ff)"
proof -
  from assms(2) obtain ys zs where fs: "fs = ys @ ff # zs"
    by (auto simp: in_set_conv_decomp)
  with assms(1) have "\<forall>g \<in> set zs. name g \<noteq> name ff" by (force simp: image_iff)
  then show ?thesis unfolding fs by (rule Element_last_wins)
qed

lemma lookup_alloc:
  "lookup (fst (alloc h obj)) p = (if p = length h then Some obj else lookup h p)"
  by (auto simp: lookup_def alloc_def nth_append)

text \<open>
  Claim C7, as the code has it. Two calls of \<open>Element\<close> return two new dictionaries,
  both with the contents \<open>Element features\<close>, in which every registered name maps to
  the prototype of the last feature registered under it (with distinct names: to its
  feature's prototype); the objects of the heap are left as they were. The prototypes are not copied: rebinding a key of one dictionary leaves the
  other one alone, but an assignment \<open>e1[k][i] = x\<close> changes the one vector that both
  dictionaries and the registry refer to.
\<close>

theorem Element_shares_prototypes:
  "case Element_call h features of (h1, e1) \<Rightarrow>
   case Element_call h1 features of (h2, e2) \<Rightarrow>
     e1 \<noteq> e2 \<and> lookup h e1 = None \<and> lookup h1 e2 = None
   \<and> lookup h2 e1 = Some (DictObj (Element features))
   \<and> lookup h2 e2 = Some (DictObj (Element features))
   \<and> (\<forall>p < length h. lookup h2 p = lookup h p)
   \<and> (\<forall>ff \<in> set features.
        Element features (name ff)
          = Some (proto (last (filter (\<lambda>g. name g = name ff) features))))
   \<and> (distinct (map name features) \<longrightarrow>
        (\<forall>ff \<in> set features. Element features (name ff) = Some (proto ff)))
   \<and> (\<forall>k p h3. dict_setitem h2 e1 k p = Inr h3 \<longrightarrow> lookup h3 e2 = lookup h2 e2)
   \<and> (\<forall>k i x h3. item_setitem h2 e1 k i x = Inr h3 \<longrightarrow>
        (\<exists>p v. Element features k = Some p \<and> getitem h3 e1 k = Inr p \<and> getitem h3 e2 k = Inr p
           \<and> lookup h2 p = Some (VecObj v) \<and> lookup h3 p = Some (VecObj (v[i := x]))))"
proof -
  let ?d = "DictObj (Element features)"
  let ?h2 = "(h @ [?d]) @ [?d]"
  have sharing: "\<exists>p v. Element features k = Some p \<and> getitem h3 (length h) k = Inr p
       \<and> getitem h3 (Suc (length h)) k = Inr p
       \<and> lookup ?h2 p = Some (VecObj v) \<and> lookup h3 p = Some (VecObj (v[i := x]))"
    if s: "item_setitem ?h2 (length h) k i x = Inr h3" for k i x h3
  proof -
    from s obtain p where p: "Element features k = Some p" and v: "vec_setitem ?h2 p i x = Inr h3"
      by (auto simp: item_setitem_def getitem_def lookup_def nth_append split: option.splits sum.splits)
    from v obtain vv where vv: "lookup ?h2 p = Some (VecObj vv)" and i: "i < length vv"
      and h3: "h3 = ?h2[p := VecObj (vv[i := x])]"
      by (auto simp: vec_setitem_def split: option.splits pyobj.splits if_splits)
    from vv have plt: "p < length h"
      by (auto simp: lookup_def nth_append less_Suc_eq split: if_splits)
    show ?thesis
      using p vv plt unfolding h3
      by (auto simp: getitem_def lookup_def nth_append nth_list_update)
  qed
  have rebinding: "lookup h3 (Suc (length h)) = lookup ?h2 (Suc (length h))"
    if "dict_setitem ?h2 (length h) k p = Inr h3" for k p h3
    using that by (auto simp: dict_setitem_def lookup_def nth_append split: option.splits pyobj.splits)
  have fresh: "lookup h (length h) = None" "lookup (h @ [?d]) (Suc (length h)) = None"
    by (simp_all add: lookup_def)
  have dicts: "lookup ?h2 (length h) = Some ?d" "lookup ?h2 (Suc (length h)) = Some ?d"
    by (simp_all add: lookup_def nth_append)
  have old: "\<forall>p < length h. lookup ?h2 p = lookup h p"
    by (simp add: lookup_def nth_append)
  have lasts: "\<forall>ff \<in> set features.
      Element features (name ff)
        = Some (proto (last (filter (\<lambda>g. name g = name ff) features)))"
    by (simp add: Element_last_registered)
  have names: "distinct (map name features) \<longrightarrow>
      (\<forall>ff \<in> set features. Element features (name ff) = Some (proto ff))"
    by (simp add: Element_distinct)
  have rebinding': "\<forall>k p h3. dict_setitem ?h2 (length h) k p = Inr h3 \<longrightarrow>
      lookup h3 (Suc (length h)) = lookup ?h2 (Suc (length h))"
    using rebinding by blast
  have sharing': "\<forall>k i x h3. item_setitem ?h2 (length h) k i x = Inr h3 \<longrightarrow>
      (\<exists>p v. Element features k = Some p \<and> getitem h3 (length h) k = Inr p
         \<and> getitem h3 (Suc (length h)) k = Inr p
         \<and> lookup ?h2 p = Some (VecObj v) \<and> lookup h3 p = Some (VecObj (v[i := x])))"
    using sharing by blast
  show ?thesis
    unfolding Element_call_def alloc_def prod.case length_append list.size
    using fresh dicts old lasts names rebinding' sharing' by simp
qed

theorem Element_shares_prototypes_witness:
  "\<exists>h3 p v.
      item_setitem (fst (Element_call (fst (Element_call [VecObj [1, 2]] vec_space)) vec_space))
        1 ''v'' 1 9 = Inr h3
    \<and> Element vec_space ''v'' = Some p \<and> getitem h3 1 ''v'' = Inr p \<and> getitem h3 2 ''v'' = Inr p
    \<and> lookup (fst (Element_call (fst (Element_call [VecObj [1, 2]] vec_space)) vec_space)) p
        = Some (VecObj v)
    \<and> lookup h3 p = Some (VecObj (v[1 := 9]))"
proof -
  let ?h2 = "fst (Element_call (fst (Element_call [VecObj [1, 2]] vec_space)) vec_space)"
  have s: "item_setitem ?h2 1 ''v'' 1 9
           = Inr [VecObj [1, 9], DictObj (Element vec_space), DictObj (Element vec_space)]"
    by (simp add: Element_call_def alloc_def item_setitem_def getitem_def lookup_def
        vec_setitem_def vec_space_def AddFeature_def Element_def)
  from Element_shares_prototypes [of "[VecObj [1, 2]]" vec_space]
  have "\<forall>k i x h3. item_setitem ?h2 1 k i x = Inr h3 \<longrightarrow>
        (\<exists>p v. Element vec_space k = Some p \<and> getitem h3 1 k = Inr p \<and> getitem h3 2 k = Inr p
           \<and> lookup ?h2 p = Some (VecObj v) \<and> lookup h3 p = Some (VecObj (v[i := x])))"
    by (simp add: Element_call_def alloc_def numeral_2_eq_2)
  with s show ?thesis by blast
qed

text \<open>
  Claim C7 as stated fails: after \<open>e1[''v''][0] = 5\<close> the other element, \<open>e2\<close>, reads
  \<open>[5, 0]\<close> under \<open>''v''\<close> where it read \<open>[0, 0]\<close> before.
\<close>

theorem Element_mutation_visible:
  "case Element_call [VecObj [0, 0]] vec_space of (h1, e1) \<Rightarrow>
   case Element_call h1 vec_space of (h2, e2) \<Rightarrow>
   case item_setitem h2 e1 ''v'' 0 5 of
     Inl err \<Rightarrow> False
   | Inr h3 \<Rightarrow> e1 \<noteq> e2 \<and> deref h2 e2 ''v'' = Some (VecObj [0, 0])
              \<and> deref h3 e2 ''v'' = Some (VecObj [5, 0])"
  by (simp add: Element_call_def alloc_def vec_space_def AddFeature_def Element_def
      item_setitem_def getitem_def lookup_def vec_setitem_def deref_def)

section \<open>Every instance has its own registry\<close>

lemma own_lists_class_defined: "own_lists class_defined"
  by (simp add: own_lists_def class_defined_def)

lemma own_lists_new:
  assumes "own_lists w"
  shows "own_lists (fst (FeatureSpace_new w))"
proof -
  let ?n = "length (instances w)"
  let ?w' = "fst (FeatureSpace_new w)"
  have w': "lists ?w' = lists w @ [[]]" "class_features ?w' = class_features w"
    "instances ?w' = instances w @ [Some (length (lists w))]"
    by (simp_all add: FeatureSpace_new_def new_object_def init_def)
  have nth: "instances ?w' ! i = (if i < ?n then instances w ! i else Some (length (lists w)))"
    if "i < Suc ?n" for i
    using that by (auto simp: w' nth_append less_Suc_eq)
  have old: "\<exists>l. instances w ! i = Some l \<and> 0 < l \<and> l < length (lists w)" if "i < ?n" for i
    using assms that by (simp add: own_lists_def)
  have inj: "i = j" if "i < ?n" "j < ?n" "instances w ! i = instances w ! j" for i j
    using assms that by (simp add: own_lists_def)
  have a: "\<exists>l. instances ?w' ! i = Some l \<and> 0 < l \<and> l < length (lists ?w')"
    if "i < length (instances ?w')" for i
  proof (cases "i < ?n")
    case True
    with old [OF True] that show ?thesis by (auto simp: w' nth_append)
  next
    case False
    with that assms show ?thesis by (auto simp: w' nth_append own_lists_def)
  qed
  have b: "i = j" if "i < length (instances ?w')" "j < length (instances ?w')"
    "instances ?w' ! i = instances ?w' ! j" for i j
  proof (cases "i < ?n"; cases "j < ?n")
    assume "i < ?n" "j < ?n"
    with that inj show ?thesis by (simp add: w' nth_append)
  next
    assume ij: "i < ?n" "\<not> j < ?n"
    from old [OF ij(1)] that ij show ?thesis by (auto simp: w' nth_append)
  next
    assume ij: "\<not> i < ?n" "j < ?n"
    from old [OF ij(2)] that ij show ?thesis by (auto simp: w' nth_append)
  next
    assume "\<not> i < ?n" "\<not> j < ?n"
    with that show ?thesis by (simp add: w')
  qed
  have c: "class_features ?w' = 0" "0 < length (lists ?w')" "lists ?w' ! 0 = []"
    using assms by (simp_all add: w' own_lists_def nth_append)
  show ?thesis
    unfolding own_lists_def using a b c by blast
qed

lemma own_lists_add:
  assumes "own_lists w" and "self < length (instances w)"
  shows "own_lists (AddFeature_method w self nm pr me rm rg wt)"
proof -
  from assms obtain l where l: "instances w ! self = Some l" "0 < l" "l < length (lists w)"
    by (auto simp: own_lists_def)
  then have "AddFeature_method w self nm pr me rm rg wt
             = w\<lparr>lists := (lists w)[l := AddFeature (lists w ! l) nm pr me rm rg wt]\<rparr>"
    by (simp add: AddFeature_method_def self_features_def)
  with assms(1) l show ?thesis by (simp add: own_lists_def)
qed

lemma own_lists_step: "own_lists w \<Longrightarrow> own_lists (step w c)"
  by (cases c) (simp_all add: own_lists_new own_lists_add)

lemma own_lists_run: "own_lists (run calls)"
  unfolding run_def
  by (induction calls rule: rev_induct) (simp_all add: own_lists_class_defined own_lists_step)

lemma features_of_new:
  assumes "own_lists w"
  shows "features_of (fst (FeatureSpace_new w)) (snd (FeatureSpace_new w)) = []"
    and "j < length (instances w) \<Longrightarrow> features_of (fst (FeatureSpace_new w)) j = features_of w j"
proof -
  show "features_of (fst (FeatureSpace_new w)) (snd (FeatureSpace_new w)) = []"
    by (simp add: features_of_def self_features_def FeatureSpace_new_def new_object_def init_def)
  assume j: "j < length (instances w)"
  with assms obtain l where "instances w ! j = Some l" "l < length (lists w)"
    by (auto simp: own_lists_def)
  with j show "features_of (fst (FeatureSpace_new w)) j = features_of w j"
    by (simp add: features_of_def self_features_def FeatureSpace_new_def new_object_def init_def
        nth_append)
qed

lemma features_of_add:
  assumes "own_lists w" and "i < length (instances w)" and "j < length (instances w)"
  shows "features_of (AddFeature_method w i nm pr me rm rg wt) j
         = (if j = i then AddFeature (features_of w i) nm pr me rm rg wt else features_of w j)"
proof -
  from assms obtain li lj where
    li: "instances w ! i = Some li" "li < length (lists w)" and
    lj: "instances w ! j = Some lj" "lj < length (lists w)"
    by (auto simp: own_lists_def) metis
  have "li = lj \<longleftrightarrow> i = j"
    using assms li lj by (auto simp: own_lists_def)
  with li lj show ?thesis
    by (auto simp: features_of_def self_features_def AddFeature_method_def)
qed

lemma class_list_empty: "own_lists w \<Longrightarrow> lists w ! class_features w = []"
  by (simp add: own_lists_def)

lemma own_list_not_class:
  assumes "own_lists w" and "i < length (instances w)"
  shows "self_features w i \<noteq> class_features w"
proof -
  from assms obtain l where "instances w ! i = Some l" "0 < l"
    by (auto simp: own_lists_def)
  with assms(1) show ?thesis by (simp add: self_features_def own_lists_def)
qed

text \<open>
  Claim C10. In every world reached by constructing feature spaces and registering
  features: a newly constructed instance has an empty registry and construction leaves
  the registries of the others as they are; \<open>AddFeature\<close> on an instance appends the new
  entry at the end of that instance's registry and leaves the registry of every other
  instance, hence what \<open>Element\<close> and \<open>Difference\<close> compute from it, unchanged; the
  class-level list stays empty and is the registry of no instance.
\<close>

theorem instances_independent:
  "features_of (fst (FeatureSpace_new (run calls))) (snd (FeatureSpace_new (run calls))) = []
   \<and> (\<forall>j < length (instances (run calls)).
        features_of (fst (FeatureSpace_new (run calls))) j = features_of (run calls) j)
   \<and> (\<forall>i < length (instances (run calls)).
        features_of (AddFeature_method (run calls) i nm pr me rm rg wt) i
          = features_of (run calls) i
            @ [\<lparr>name = nm, proto = pr, metric = me, remap = rm, range' = rg, weight = wt\<rparr>]
        \<and> (\<forall>j < length (instances (run calls)). j \<noteq> i \<longrightarrow>
              features_of (AddFeature_method (run calls) i nm pr me rm rg wt) j
                = features_of (run calls) j
              \<and> Element (features_of (AddFeature_method (run calls) i nm pr me rm rg wt) j)
                = Element (features_of (run calls) j)
              \<and> Difference64 (features_of (AddFeature_method (run calls) i nm pr me rm rg wt) j)
                  aa bb g
                = Difference64 (features_of (run calls) j) aa bb g))
   \<and> lists (run calls) ! class_features (run calls) = []
   \<and> (\<forall>i < length (instances (run calls)).
        self_features (run calls) i \<noteq> class_features (run calls))"
  using own_lists_run [of calls]
  by (simp add: features_of_new features_of_add class_list_empty own_list_not_class
      AddFeature_def)

theorem instances_independent_witness:
  "features_of
     (AddFeature_method (run [Construct, Construct]) 0 ''age'' (Scalar 0) ManhattanDistance None 1 1)
     0 = [\<lparr>name = ''age'', proto = Scalar 0, metric = ManhattanDistance, remap = None,
            range' = 1, weight = 1\<rparr>]
   \<and> features_of
     (AddFeature_method (run [Construct, Construct]) 0 ''age'' (Scalar 0) ManhattanDistance None 1 1)
     1 = []
   \<and> features_of
     (AddFeature_method (run [Construct]) 0 ''age'' (Scalar 0) ManhattanDistance None 1 1)
     0 = [\<lparr>name = ''age'', proto = Scalar 0, metric = ManhattanDistance, remap = None,
            range' = 1, weight = 1\<rparr>]
   \<and> lists (run [Construct, Construct] :: ndarray world) ! 0 = []"
proof -
  let ?f = "\<lparr>name = ''age'', proto = Scalar 0, metric = ManhattanDistance, remap = None,
            range' = 1, weight = 1\<rparr>"
  have w: "(run [Construct, Construct] :: ndarray world)
           = \<lparr>lists = [[], [], []], class_features = 0, instances = [Some 1, Some 2]\<rparr>"
    by (simp add: run_def class_defined_def FeatureSpace_new_def new_object_def init_def)
  have v: "(run [Construct] :: ndarray world)
           = \<lparr>lists = [[], []], class_features = 0, instances = [Some 1]\<rparr>"
    by (simp add: run_def class_defined_def FeatureSpace_new_def new_object_def init_def)
  let ?w = "run [Construct, Construct] :: ndarray world"
  let ?v = "run [Construct] :: ndarray world"
  have len: "length (instances ?w) = 2" "length (instances ?v) = 1" by (simp_all add: w v)
  have f: "features_of ?w 0 = []" "features_of ?w 1 = []" "features_of ?v 0 = []"
    by (simp_all add: w v features_of_def self_features_def)
  from instances_independent [of "[Construct, Construct] :: ndarray call list"
      "''age''" "Scalar 0" ManhattanDistance None 1 1]
  have all: "\<forall>i < length (instances ?w).
        features_of (AddFeature_method ?w i ''age'' (Scalar 0) ManhattanDistance None 1 1) i
          = features_of ?w i @ [?f]
        \<and> (\<forall>j < length (instances ?w). j \<noteq> i \<longrightarrow>
              features_of (AddFeature_method ?w i ''age'' (Scalar 0) ManhattanDistance None 1 1) j
                = features_of ?w j)"
    and cl: "lists ?w ! class_features ?w = []"
    by blast+
  from all [rule_format, of 0] len f have a:
    "features_of (AddFeature_method ?w 0 ''age'' (Scalar 0) ManhattanDistance None 1 1) 0 = [?f]"
    and b: "\<forall>j < length (instances ?w). j \<noteq> 0 \<longrightarrow>
        features_of (AddFeature_method ?w 0 ''age'' (Scalar 0) ManhattanDistance None 1 1) j
          = features_of ?w j"
    by simp_all
  from b [rule_format, of 1] len f have c:
    "features_of (AddFeature_method ?w 0 ''age'' (Scalar 0) ManhattanDistance None 1 1) 1 = []"
    by simp
  from instances_independent [of "[Construct] :: ndarray call list"
      "''age''" "Scalar 0" ManhattanDistance None 1 1]
  have "\<forall>i < length (instances ?v).
        features_of (AddFeature_method ?v i ''age'' (Scalar 0) ManhattanDistance None 1 1) i
          = features_of ?v i @ [?f]"
    by blast
  from this [rule_format, of 0] len f have d:
    "features_of (AddFeature_method ?v 0 ''age'' (Scalar 0) ManhattanDistance None 1 1) 0 = [?f]"
    by simp
  from cl have "lists ?w ! 0 = []" by (simp add: w)
  with a c d show ?thesis by blast
qed

end
